theory Spec2Isabelle
  imports Main
begin

section \<open>Byte buffers and the primitive readers and writers\<close>

text \<open>
  A Node \<^verbatim>\<open>Buffer\<close> is a list of bytes; Isabelle's \<open>char\<close> is a byte, so a buffer is a
  \<open>string\<close>, and an ASCII string literal of the source (\<^verbatim>\<open>'host_port'\<close>) is its own byte form.
  A JavaScript string that travels in a frame is held as the bytes of its UTF-8 form, which
  are the bytes \<^verbatim>\<open>new Buffer(string)\<close> gives and the writers put on the wire. Not every list of
  bytes is the UTF-8 form of a string: \<open>utf8_wellformed\<close> below says which are.
\<close>

type_synonym buffer = string

datatype error =
    ShortReadError
  | InvalidFrameTypeError nat
  | ExtraFrameDataError nat nat
  | DuplicateInitHeaderError string
  | InvalidInitHeaderError string
  | InvalidChecksumTypeError nat
  | ChecksumError
  | ShortChunkRead nat
  | ZeroLengthFrameError
  | BrokenReaderStateError
  | InvalidArgumentError string

text \<open>
  The readers of the source return the triple \<^verbatim>\<open>[err, offset, value]\<close>: \<open>RdErr err offset\<close> when
  \<^verbatim>\<open>err\<close> is set, \<open>RdOk value offset\<close> otherwise.
\<close>

datatype 'a rd = RdErr error nat | RdOk 'a nat

text \<open>
  Modelled from the spec: \<^verbatim>\<open>lib/read.js\<close> and \<^verbatim>\<open>lib/write.js\<close> are not among the sources. The
  spec fixes the wire grammar they implement: unsigned big-endian integers of 1, 2 and 4 bytes,
  fixed-width byte fields, and \<open>~k\<close>, a k-byte unsigned big-endian length followed by that many
  bytes. \<^verbatim>\<open>read.chain(reader, buffer, offset, k)\<close> runs a reader and, when it succeeds, continues
  with \<^verbatim>\<open>k(value, buffer, offset')\<close>; \<^verbatim>\<open>read.series\<close> and \<^verbatim>\<open>read.chained\<close> are iterations of it.
  A reader that needs more bytes than the buffer holds fails with a short-read error at the
  offset where it started. \<^verbatim>\<open>read.want(n, buffer, offset)\<close> is that check alone.
\<close>

definition chain :: "'a rd \<Rightarrow> ('a \<Rightarrow> nat \<Rightarrow> 'b rd) \<Rightarrow> 'b rd" where
  "chain r k = (case r of RdErr e off \<Rightarrow> RdErr e off | RdOk v off \<Rightarrow> k v off)"

definition want :: "int \<Rightarrow> buffer \<Rightarrow> nat \<Rightarrow> error option" where
  "want n buf offset = (if int (length buf) - int offset < n then Some ShortReadError else None)"

definition read_fixed :: "nat \<Rightarrow> buffer \<Rightarrow> nat \<Rightarrow> buffer rd" where
  "read_fixed n buf offset =
     (if offset + n \<le> length buf then RdOk (take n (drop offset buf)) (offset + n)
      else RdErr ShortReadError offset)"

fun be_value :: "buffer \<Rightarrow> nat" where
  "be_value [] = 0"
| "be_value (c # cs) = of_char c * 256 ^ length cs + be_value cs"

definition read_UInt8 :: "buffer \<Rightarrow> nat \<Rightarrow> nat rd" where
  "read_UInt8 buf offset = chain (read_fixed 1 buf offset) (\<lambda>bs off. RdOk (be_value bs) off)"

definition read_UInt16BE :: "buffer \<Rightarrow> nat \<Rightarrow> nat rd" where
  "read_UInt16BE buf offset = chain (read_fixed 2 buf offset) (\<lambda>bs off. RdOk (be_value bs) off)"

definition read_UInt32BE :: "buffer \<Rightarrow> nat \<Rightarrow> nat rd" where
  "read_UInt32BE buf offset = chain (read_fixed 4 buf offset) (\<lambda>bs off. RdOk (be_value bs) off)"

definition read_buf1 :: "buffer \<Rightarrow> nat \<Rightarrow> buffer rd" where
  "read_buf1 buf offset = chain (read_UInt8 buf offset) (\<lambda>n off. read_fixed n buf off)"

definition read_buf2 :: "buffer \<Rightarrow> nat \<Rightarrow> buffer rd" where
  "read_buf2 buf offset = chain (read_UInt16BE buf offset) (\<lambda>n off. read_fixed n buf off)"

definition read_pair1 :: "buffer \<Rightarrow> nat \<Rightarrow> (buffer \<times> buffer) rd" where
  "read_pair1 buf offset =
     chain (read_buf1 buf offset) (\<lambda>k off. chain (read_buf1 buf off) (\<lambda>v off'. RdOk (k, v) off'))"

definition read_pair2 :: "buffer \<Rightarrow> nat \<Rightarrow> (buffer \<times> buffer) rd" where
  "read_pair2 buf offset =
     chain (read_buf2 buf offset) (\<lambda>k off. chain (read_buf2 buf off) (\<lambda>v off'. RdOk (k, v) off'))"

text \<open>
  The writers produce the bytes of the field. The values they are given must fit the field
  (what the absent library does otherwise is not specified; the model keeps the low-order
  bytes), and \<^verbatim>\<open>write.series\<close> concatenates.
\<close>

definition write_UInt8 :: "nat \<Rightarrow> buffer" where
  "write_UInt8 n = [char_of n]"

definition write_UInt16BE :: "nat \<Rightarrow> buffer" where
  "write_UInt16BE n = [char_of (n div 256), char_of n]"

definition write_UInt32BE :: "nat \<Rightarrow> buffer" where
  "write_UInt32BE n =
     [char_of (n div 16777216), char_of (n div 65536), char_of (n div 256), char_of n]"

definition write_fill :: "nat \<Rightarrow> nat \<Rightarrow> buffer" where
  "write_fill v n = replicate n (char_of v)"

definition write_fixed :: "nat \<Rightarrow> buffer \<Rightarrow> buffer" where
  "write_fixed n bs = bs"

definition write_buf1 :: "buffer \<Rightarrow> buffer" where
  "write_buf1 bs = write_UInt8 (length bs) @ bs"

definition write_buf2 :: "buffer \<Rightarrow> buffer" where
  "write_buf2 bs = write_UInt16BE (length bs) @ bs"

text \<open>
  Modelled from the spec: \<^verbatim>\<open>write.buf2(value, description)\<close> on a value that may be missing. The
  spec's \<open>~2\<close> is the form of a byte string, and of a string through its UTF-8 bytes; it gives
  no form for \<^verbatim>\<open>undefined\<close>. The source hands the writer a description of the field
  (\<^verbatim>\<open>'init hostPort'\<close>), and the writer is taken to raise an error that names it instead of
  returning bytes.
\<close>

definition write_buf2_arg :: "string option \<Rightarrow> string \<Rightarrow> error + buffer" where
  "write_buf2_arg v description =
     (case v of
        None \<Rightarrow> Inl (InvalidArgumentError description)
      | Some s \<Rightarrow> Inr (write_buf2 s))"

section \<open>Strings from buffers\<close>

text \<open>
  \<^verbatim>\<open>String(buffer)\<close> is Node's \<^verbatim>\<open>buffer.toString()\<close>: the bytes decoded as UTF-8, with U+FFFD, the
  replacement character, for everything that is not well-formed. With a string held as its
  UTF-8 bytes, decoding copies each well-formed sequence and puts the three bytes of U+FFFD
  (\<^verbatim>\<open>EF BF BD\<close>) for each ill-formed one: a byte that cannot begin a sequence, or the begun
  sequence up to the byte that cannot continue it (or up to the end of the buffer); that
  byte is then decoded afresh. The second byte after \<^verbatim>\<open>E0\<close>, \<^verbatim>\<open>ED\<close>, \<^verbatim>\<open>F0\<close> and \<^verbatim>\<open>F4\<close> has a narrower
  range, which excludes overlong forms, surrogates and code points above U+10FFFF.
\<close>

definition replacement :: string where
  "replacement = [CHR 0xEF, CHR 0xBF, CHR 0xBD]"

definition byte_in :: "nat \<Rightarrow> nat \<Rightarrow> char \<Rightarrow> bool" where
  "byte_in lo hi c = (lo \<le> of_char c \<and> (of_char c :: nat) \<le> hi)"

fun Buffer_toString :: "buffer \<Rightarrow> string" where
  "Buffer_toString [] = []"
| "Buffer_toString (b # bs) =
     (if byte_in 0x00 0x7F b then b # Buffer_toString bs
      else if byte_in 0xC2 0xDF b then
        (case bs of
           [] \<Rightarrow> replacement
         | c # cs \<Rightarrow>
             if byte_in 0x80 0xBF c then b # c # Buffer_toString cs
             else replacement @ Buffer_toString bs)
      else if byte_in 0xE0 0xEF b then
        (case bs of
           [] \<Rightarrow> replacement
         | c # cs \<Rightarrow>
             if byte_in (if b = CHR 0xE0 then 0xA0 else 0x80) (if b = CHR 0xED then 0x9F else 0xBF) c then
               (case cs of
                  [] \<Rightarrow> replacement
                | d # ds \<Rightarrow>
                    if byte_in 0x80 0xBF d then b # c # d # Buffer_toString ds
                    else replacement @ Buffer_toString cs)
             else replacement @ Buffer_toString bs)
      else if byte_in 0xF0 0xF4 b then
        (case bs of
           [] \<Rightarrow> replacement
         | c # cs \<Rightarrow>
             if byte_in (if b = CHR 0xF0 then 0x90 else 0x80) (if b = CHR 0xF4 then 0x8F else 0xBF) c then
               (case cs of
                  [] \<Rightarrow> replacement
                | d # ds \<Rightarrow>
                    if byte_in 0x80 0xBF d then
                      (case ds of
                         [] \<Rightarrow> replacement
                       | e # es \<Rightarrow>
                           if byte_in 0x80 0xBF e then b # c # d # e # Buffer_toString es
                           else replacement @ Buffer_toString ds)
                    else replacement @ Buffer_toString cs)
             else replacement @ Buffer_toString bs)
      else replacement @ Buffer_toString bs)"

text \<open>
  The byte lists that are the UTF-8 form of a string (of a sequence of Unicode scalar
  values): the well-formed byte sequences of the Unicode Standard, one after the other.
\<close>

fun utf8_wellformed :: "buffer \<Rightarrow> bool" where
  "utf8_wellformed [] = True"
| "utf8_wellformed (b # bs) =
     (if byte_in 0x00 0x7F b then utf8_wellformed bs
      else if byte_in 0xC2 0xDF b then
        (case bs of
           c # cs \<Rightarrow> byte_in 0x80 0xBF c \<and> utf8_wellformed cs
         | [] \<Rightarrow> False)
      else if byte_in 0xE0 0xEF b then
        (case bs of
           c # d # ds \<Rightarrow>
             byte_in (if b = CHR 0xE0 then 0xA0 else 0x80) (if b = CHR 0xED then 0x9F else 0xBF) c
             \<and> byte_in 0x80 0xBF d \<and> utf8_wellformed ds
         | _ \<Rightarrow> False)
      else if byte_in 0xF0 0xF4 b then
        (case bs of
           c # d # e # es \<Rightarrow>
             byte_in (if b = CHR 0xF0 then 0x90 else 0x80) (if b = CHR 0xF4 then 0x8F else 0xBF) c
             \<and> byte_in 0x80 0xBF d \<and> byte_in 0x80 0xBF e \<and> utf8_wellformed es
         | _ \<Rightarrow> False)
      else False)"

section \<open>Call headers and checksums\<close>

text \<open>
  Modelled from the spec: \<^verbatim>\<open>v2/header.js\<close> is not among the sources. The grammar is
  \<open>nh:1 (hk~1 hv~1){nh}\<close>, an ordered sequence of key and value byte strings.
\<close>

type_synonym headers = "(buffer \<times> buffer) list"

fun read_pairs1 :: "nat \<Rightarrow> buffer \<Rightarrow> nat \<Rightarrow> headers rd" where
  "read_pairs1 0 buf offset = RdOk [] offset"
| "read_pairs1 (Suc n) buf offset =
     chain (read_pair1 buf offset)
       (\<lambda>kv off. chain (read_pairs1 n buf off) (\<lambda>kvs off'. RdOk (kv # kvs) off'))"

definition header_read :: "buffer \<Rightarrow> nat \<Rightarrow> headers rd" where
  "header_read buf offset = chain (read_UInt8 buf offset) (\<lambda>nh off. read_pairs1 nh buf off)"

definition header_write :: "headers \<Rightarrow> buffer" where
  "header_write hs = write_UInt8 (length hs) @ concat (map (\<lambda>(k, v). write_buf1 k @ write_buf1 v) hs)"

text \<open>
  Modelled from the spec: \<^verbatim>\<open>v2/checksum.js\<close> is not among the sources. A checksum has an
  algorithm id (\<open>none = 0\<close>, \<open>crc32 = 1\<close>, \<open>farmhash32 = 2\<close>) and a 32-bit value. \<^verbatim>\<open>update\<close> computes
  the value over the three arguments before the frame is written, \<^verbatim>\<open>write\<close> emits \<open>csumtype:1\<close>
  and then \<open>csum:4\<close> iff the type is not none, \<^verbatim>\<open>verify\<close> rejects any mismatch with a checksum
  error. The algorithms are pluggable: they are the parameter \<open>alg\<close>, from the algorithm id and
  the three arguments to the value. The value of a checksum of type none is 0.
\<close>

type_synonym csum_alg = "nat \<Rightarrow> buffer \<Rightarrow> buffer \<Rightarrow> buffer \<Rightarrow> nat"

record Checksum =
  ctype :: nat
  cval :: nat

definition Checksum_compute :: "csum_alg \<Rightarrow> Checksum \<Rightarrow> buffer \<Rightarrow> buffer \<Rightarrow> buffer \<Rightarrow> nat" where
  "Checksum_compute alg c a1 a2 a3 = (if ctype c = 0 then 0 else alg (ctype c) a1 a2 a3 mod 2 ^ 32)"

definition Checksum_update :: "csum_alg \<Rightarrow> Checksum \<Rightarrow> buffer \<Rightarrow> buffer \<Rightarrow> buffer \<Rightarrow> Checksum" where
  "Checksum_update alg c a1 a2 a3 = c\<lparr>cval := Checksum_compute alg c a1 a2 a3\<rparr>"

definition Checksum_verify :: "csum_alg \<Rightarrow> Checksum \<Rightarrow> buffer \<Rightarrow> buffer \<Rightarrow> buffer \<Rightarrow> error option" where
  "Checksum_verify alg c a1 a2 a3 =
     (if ctype c = 0 then None
      else if Checksum_compute alg c a1 a2 a3 = cval c then None else Some ChecksumError)"

definition Checksum_write :: "Checksum \<Rightarrow> buffer" where
  "Checksum_write c =
     (if ctype c = 0 then write_UInt8 (ctype c) else write_UInt8 (ctype c) @ write_UInt32BE (cval c))"

definition Checksum_read :: "buffer \<Rightarrow> nat \<Rightarrow> Checksum rd" where
  "Checksum_read buf offset =
     chain (read_UInt8 buf offset) (\<lambda>t off.
       if t = 0 then RdOk \<lparr>ctype = t, cval = 0\<rparr> off
       else if t = 1 \<or> t = 2 then
         chain (read_UInt32BE buf off) (\<lambda>v off'. RdOk \<lparr>ctype = t, cval = v\<rparr> off')
       else RdErr (InvalidChecksumTypeError t) off)"

section \<open>Frame bodies (v2/init.js, v2/call.js)\<close>

text \<open>
  The body classes of the source, one constructor each, fields in the order of the source's
  constructors. \<^verbatim>\<open>InitRequest(version, hostPort, processName)\<close>, \<^verbatim>\<open>InitResponse\<close> likewise,
  \<^verbatim>\<open>CallRequest(ttl, tracing, service, headers, arg1, arg2, arg3, csum)\<close> and
  \<^verbatim>\<open>CallResponse(code, headers, arg1, arg2, arg3, csum)\<close>. The error body's class is not among
  the sources; its fields \<open>code\<close> and \<open>message\<close> are the ones \<^verbatim>\<open>handleError\<close> reads.
  The two names of an init body are strings, or \<^verbatim>\<open>undefined\<close> (\<open>None\<close>), which is what
  \<^verbatim>\<open>InitRequest.read\<close> passes to the constructor for a name it has not seen.
\<close>

datatype body =
    InitRequest nat "string option" "string option"
  | InitResponse nat "string option" "string option"
  | CallRequest nat buffer buffer headers buffer buffer buffer Checksum
  | CallResponse nat headers buffer buffer buffer Checksum
  | ErrorBody nat buffer

datatype body_type = InitRequestT | InitResponseT | CallRequestT | CallResponseT | ErrorT

fun TypeCode :: "body_type \<Rightarrow> nat" where
  "TypeCode InitRequestT = 0x01"
| "TypeCode InitResponseT = 0x02"
| "TypeCode CallRequestT = 0x03"
| "TypeCode CallResponseT = 0x04"
| "TypeCode ErrorT = 0xFF"

fun body_class :: "body \<Rightarrow> body_type" where
  "body_class (InitRequest version hostPort processName) = InitRequestT"
| "body_class (InitResponse version hostPort processName) = InitResponseT"
| "body_class (CallRequest ttl tracing service hs arg1 arg2 arg3 csum) = CallRequestT"
| "body_class (CallResponse code hs arg1 arg2 arg3 csum) = CallResponseT"
| "body_class (ErrorBody code message) = ErrorT"

text \<open>\<^verbatim>\<open>body.type\<close>, set by every constructor to the class's \<^verbatim>\<open>TypeCode\<close>.\<close>

definition body_type_code :: "body \<Rightarrow> nat" where
  "body_type_code b = TypeCode (body_class b)"

record Frame =
  frame_id :: nat
  flags :: nat
  body :: body

text \<open>
  \<^verbatim>\<open>InitRequest.read\<close> (v2/init.js): \<open>version:2 (key~2 value~2){2}\<close>. The loop over the two pairs
  turns each key and value into a string with \<^verbatim>\<open>String\<close> and keeps the source's checks: a key
  seen while its variable is already truthy (a non-empty string) is a duplicate, any key
  other than the two required ones is invalid. A variable that was never assigned stays
  \<^verbatim>\<open>undefined\<close> and is passed to the constructor as it is. \<^verbatim>\<open>InitResponse.read\<close> is the same
  function; \<^verbatim>\<open>this\<close>, here \<open>Type\<close>, is the class it builds.
\<close>

fun init_pairs ::
  "(buffer \<times> buffer) list \<Rightarrow> string option \<Rightarrow> string option \<Rightarrow> error + (string option \<times> string option)" where
  "init_pairs [] hostPort processName = Inr (hostPort, processName)"
| "init_pairs (pair # pairs) hostPort processName =
     (let k = Buffer_toString (fst pair);
          v = Buffer_toString (snd pair)
      in if k = ''host_port'' then
           (if hostPort \<noteq> None \<and> hostPort \<noteq> Some [] then Inl (DuplicateInitHeaderError ''host_port'')
            else init_pairs pairs (Some v) processName)
         else if k = ''process_name'' then
           (if processName \<noteq> None \<and> processName \<noteq> Some []
            then Inl (DuplicateInitHeaderError ''process_name'')
            else init_pairs pairs hostPort (Some v))
         else Inl (InvalidInitHeaderError k))"

definition Init_read :: "body_type \<Rightarrow> buffer \<Rightarrow> nat \<Rightarrow> body rd" where
  "Init_read Type buf offset =
     chain (read_UInt16BE buf offset) (\<lambda>version off1.
     chain (read_pair2 buf off1) (\<lambda>p1 off2.
     chain (read_pair2 buf off2) (\<lambda>p2 off3.
       case init_pairs [p1, p2] None None of
         Inl err \<Rightarrow> RdErr err off3
       | Inr (hostPort, processName) \<Rightarrow>
           RdOk (if Type = InitResponseT then InitResponse version hostPort processName
                 else InitRequest version hostPort processName) off3)))"

text \<open>
  \<^verbatim>\<open>InitRequest.prototype.write\<close>, which is also \<^verbatim>\<open>InitResponse.prototype.write\<close>: the series of
  the five writers, built in this order, so that a missing \<^verbatim>\<open>hostPort\<close> is reported before a
  missing \<^verbatim>\<open>processName\<close>.
\<close>

definition Init_write :: "nat \<Rightarrow> string option \<Rightarrow> string option \<Rightarrow> error + buffer" where
  "Init_write version hostPort processName =
     (case write_buf2_arg hostPort ''init hostPort'' of
        Inl err \<Rightarrow> Inl err
      | Inr hostPortBytes \<Rightarrow>
          (case write_buf2_arg processName ''init processName'' of
             Inl err \<Rightarrow> Inl err
           | Inr processNameBytes \<Rightarrow>
               Inr (write_UInt16BE version
                    @ write_buf2 ''host_port''
                    @ hostPortBytes
                    @ write_buf2 ''process_name''
                    @ processNameBytes)))"

text \<open>
  \<^verbatim>\<open>CallRequest.read\<close> and \<^verbatim>\<open>CallResponse.read\<close> (v2/call.js): the series of field readers, then
  the checksum is verified over the three arguments.
\<close>

definition CallRequest_read :: "csum_alg \<Rightarrow> buffer \<Rightarrow> nat \<Rightarrow> body rd" where
  "CallRequest_read alg buf offset =
     chain (read_UInt32BE buf offset) (\<lambda>ttl off1.
     chain (read_fixed 24 buf off1) (\<lambda>tracing off2.
     chain (read_buf2 buf off2) (\<lambda>service off3.
     chain (header_read buf off3) (\<lambda>hs off4.
     chain (read_buf2 buf off4) (\<lambda>arg1 off5.
     chain (read_buf2 buf off5) (\<lambda>arg2 off6.
     chain (read_buf2 buf off6) (\<lambda>arg3 off7.
     chain (Checksum_read buf off7) (\<lambda>csum off8.
       case Checksum_verify alg csum arg1 arg2 arg3 of
         Some err \<Rightarrow> RdErr err off8
       | None \<Rightarrow> RdOk (CallRequest ttl tracing service hs arg1 arg2 arg3 csum) off8))))))))"

definition CallResponse_read :: "csum_alg \<Rightarrow> buffer \<Rightarrow> nat \<Rightarrow> body rd" where
  "CallResponse_read alg buf offset =
     chain (read_UInt8 buf offset) (\<lambda>code off1.
     chain (header_read buf off1) (\<lambda>hs off2.
     chain (read_buf2 buf off2) (\<lambda>arg1 off3.
     chain (read_buf2 buf off3) (\<lambda>arg2 off4.
     chain (read_buf2 buf off4) (\<lambda>arg3 off5.
     chain (Checksum_read buf off5) (\<lambda>csum off6.
       case Checksum_verify alg csum arg1 arg2 arg3 of
         Some err \<Rightarrow> RdErr err off6
       | None \<Rightarrow> RdOk (CallResponse code hs arg1 arg2 arg3 csum) off6))))))"

text \<open>
  Modelled from the spec: the error body's codec is not among the sources. The spec gives
  its grammar: \<open>code:1 message~2\<close>.
\<close>

definition Error_read :: "buffer \<Rightarrow> nat \<Rightarrow> body rd" where
  "Error_read buf offset =
     chain (read_UInt8 buf offset) (\<lambda>code off1.
     chain (read_buf2 buf off1) (\<lambda>message off2. RdOk (ErrorBody code message) off2))"

text \<open>
  \<^verbatim>\<open>body.write()\<close>. The call bodies first update their checksum over the arguments, in place:
  the body that was written is returned with the bytes.
\<close>

fun body_write :: "csum_alg \<Rightarrow> body \<Rightarrow> error + (buffer \<times> body)" where
  "body_write alg (InitRequest version hostPort processName) =
     (case Init_write version hostPort processName of
        Inl err \<Rightarrow> Inl err
      | Inr bytes \<Rightarrow> Inr (bytes, InitRequest version hostPort processName))"
| "body_write alg (InitResponse version hostPort processName) =
     (case Init_write version hostPort processName of
        Inl err \<Rightarrow> Inl err
      | Inr bytes \<Rightarrow> Inr (bytes, InitResponse version hostPort processName))"
| "body_write alg (CallRequest ttl tracing service hs arg1 arg2 arg3 csum) =
     (let csum' = Checksum_update alg csum arg1 arg2 arg3 in
      Inr (write_UInt32BE ttl
           @ write_fixed 24 tracing
           @ write_buf2 service
           @ header_write hs
           @ write_buf2 arg1
           @ write_buf2 arg2
           @ write_buf2 arg3
           @ Checksum_write csum',
           CallRequest ttl tracing service hs arg1 arg2 arg3 csum'))"
| "body_write alg (CallResponse code hs arg1 arg2 arg3 csum) =
     (let csum' = Checksum_update alg csum arg1 arg2 arg3 in
      Inr (write_UInt8 code
           @ header_write hs
           @ write_buf2 arg1
           @ write_buf2 arg2
           @ write_buf2 arg3
           @ Checksum_write csum',
           CallResponse code hs arg1 arg2 arg3 csum'))"
| "body_write alg (ErrorBody code message) =
     Inr (write_UInt8 code @ write_buf2 message, ErrorBody code message)"

section \<open>Frames (the frame class appended to node/v2/init.js)\<close>

text \<open>
  \<^verbatim>\<open>Frame.Types\<close> is filled in by a module that is not among the sources; the spec lists the
  type codes, which are the \<^verbatim>\<open>TypeCode\<close>s of the body classes.
\<close>

definition Frame_Types :: "nat \<Rightarrow> body_type option" where
  "Frame_Types t =
     (if t = 0x01 then Some InitRequestT
      else if t = 0x02 then Some InitResponseT
      else if t = 0x03 then Some CallRequestT
      else if t = 0x04 then Some CallResponseT
      else if t = 0xFF then Some ErrorT
      else None)"

fun BodyType_read :: "csum_alg \<Rightarrow> body_type \<Rightarrow> buffer \<Rightarrow> nat \<Rightarrow> body rd" where
  "BodyType_read alg InitRequestT buf offset = Init_read InitRequestT buf offset"
| "BodyType_read alg InitResponseT buf offset = Init_read InitResponseT buf offset"
| "BodyType_read alg CallRequestT buf offset = CallRequest_read alg buf offset"
| "BodyType_read alg CallResponseT buf offset = CallResponse_read alg buf offset"
| "BodyType_read alg ErrorT buf offset = Error_read buf offset"

text \<open>
  \<^verbatim>\<open>Frame.read\<close>: the 16-byte header, the body class, \<^verbatim>\<open>read.want(length - 16)\<close>, the body, and
  the check that the body reader reached the end the header announced. \<^verbatim>\<open>length - 16\<close> is a
  JavaScript number and may be negative.
\<close>

definition Frame_read :: "csum_alg \<Rightarrow> buffer \<Rightarrow> nat \<Rightarrow> Frame rd" where
  "Frame_read alg buf offset0 =
     chain (read_UInt32BE buf offset0) (\<lambda>len off1.
     chain (read_UInt32BE buf off1) (\<lambda>id off2.
     chain (read_UInt8 buf off2) (\<lambda>type off3.
     chain (read_UInt8 buf off3) (\<lambda>flgs off4.
     chain (read_fixed 6 buf off4) (\<lambda>reserved offset.
       case Frame_Types type of
         None \<Rightarrow> RdErr (InvalidFrameTypeError type) offset
       | Some BodyType \<Rightarrow>
           (let bodyLength = int len - 16 in
            case want bodyLength buf offset of
              Some err \<Rightarrow> RdErr err offset
            | None \<Rightarrow>
                (let endOff = int offset + bodyLength in
                 chain (BodyType_read alg BodyType buf offset) (\<lambda>b offset'.
                   if int offset' < endOff
                   then RdErr (ExtraFrameDataError len (nat (endOff - int offset'))) offset'
                   else RdOk \<lparr>frame_id = id, flags = flgs, body = b\<rparr> offset'))))))))"

text \<open>
  \<^verbatim>\<open>Frame.prototype.write\<close> and \<^verbatim>\<open>toBuffer\<close>: the bytes, and the frame as the write leaves it, or
  what the body's write raised.
\<close>

definition Frame_write :: "csum_alg \<Rightarrow> Frame \<Rightarrow> error + (buffer \<times> Frame)" where
  "Frame_write alg f =
     (case body_write alg (body f) of
        Inl err \<Rightarrow> Inl err
      | Inr (bodyBytes, b') \<Rightarrow>
          (let len = 16 + length bodyBytes
           in Inr (write_UInt32BE len
                   @ write_UInt32BE (frame_id f)
                   @ write_UInt8 (body_type_code (body f))
                   @ write_UInt8 (flags f)
                   @ write_fill 0 6
                   @ bodyBytes,
                   f\<lparr>body := b'\<rparr>)))"

definition toBuffer :: "csum_alg \<Rightarrow> Frame \<Rightarrow> error + buffer" where
  "toBuffer alg f =
     (case Frame_write alg f of
        Inl err \<Rightarrow> Inl err
      | Inr (bytes, f') \<Rightarrow> Inr bytes)"

text \<open>
  The legal value space of each field: what its wire form can hold. A name of an init body
  is a string whose UTF-8 form fits \<open>~2\<close>; the other variable fields are byte strings.
\<close>

definition legal_buf2 :: "buffer \<Rightarrow> bool" where
  "legal_buf2 bs = (length bs < 65536)"

fun legal_str2 :: "string option \<Rightarrow> bool" where
  "legal_str2 None = False"
| "legal_str2 (Some s) = (utf8_wellformed s \<and> length s < 65536)"

definition legal_headers :: "headers \<Rightarrow> bool" where
  "legal_headers hs = (length hs < 256 \<and> list_all (\<lambda>(k, v). length k < 256 \<and> length v < 256) hs)"

fun legal_body :: "body \<Rightarrow> bool" where
  "legal_body (InitRequest version hostPort processName) =
     (version < 65536 \<and> legal_str2 hostPort \<and> legal_str2 processName)"
| "legal_body (InitResponse version hostPort processName) =
     (version < 65536 \<and> legal_str2 hostPort \<and> legal_str2 processName)"
| "legal_body (CallRequest ttl tracing service hs arg1 arg2 arg3 csum) =
     (ttl < 4294967296 \<and> length tracing = 24 \<and> legal_buf2 service \<and> legal_headers hs
      \<and> legal_buf2 arg1 \<and> legal_buf2 arg2 \<and> legal_buf2 arg3 \<and> ctype csum \<in> {0, 1, 2})"
| "legal_body (CallResponse code hs arg1 arg2 arg3 csum) =
     (code < 256 \<and> legal_headers hs
      \<and> legal_buf2 arg1 \<and> legal_buf2 arg2 \<and> legal_buf2 arg3 \<and> ctype csum \<in> {0, 1, 2})"
| "legal_body (ErrorBody code message) = (code < 256 \<and> legal_buf2 message)"

definition legal_frame :: "Frame \<Rightarrow> bool" where
  "legal_frame f = (frame_id f < 4294967296 \<and> flags f < 256 \<and> legal_body (body f))"

section \<open>The chunk parser (v2/parser.js)\<close>

text \<open>
  What the modelled code can throw: the runtime's \<^verbatim>\<open>RangeError\<close> and \<^verbatim>\<open>TypeError\<close>, a plain
  \<^verbatim>\<open>new Error(message)\<close>, the router's typed error \<^verbatim>\<open>EndpointAlreadyDefinedError\<close> with its
  service and endpoint names, and an error that a writer of the codec raised.
\<close>

datatype exn =
    RangeError
  | TypeError
  | JsError string
  | EndpointAlreadyDefinedError string string
  | CodecError error

datatype States = PendingLength | Seeking

record ChunkParser =
  buffer :: buffer
  expecting :: nat
  state :: States

text \<open>What the parser emits: \<^verbatim>\<open>emit('frame', frame)\<close>, or \<^verbatim>\<open>emit('error', err)\<close> with \<^verbatim>\<open>err.offset\<close> and
  \<^verbatim>\<open>err.buffer\<close> set.\<close>

datatype 'f emitted = EmitFrame 'f | EmitError error nat buffer

definition ChunkParser_new :: ChunkParser where
  "ChunkParser_new = \<lparr>buffer = [], expecting = 4, state = PendingLength\<rparr>"

text \<open>Node's \<^verbatim>\<open>buffer.readUInt32BE(offset)\<close>: a \<^verbatim>\<open>RangeError\<close> when the four bytes are not there.\<close>

definition Buffer_readUInt32BE :: "buffer \<Rightarrow> nat \<Rightarrow> exn + nat" where
  "Buffer_readUInt32BE buf offset =
     (if offset + 4 \<le> length buf then Inr (be_value (take 4 (drop offset buf))) else Inl RangeError)"

text \<open>
  \<^verbatim>\<open>handleFrame\<close>: the frame type's reader is the constructor's argument \<^verbatim>\<open>FrameType\<close>, here the
  parameter \<open>FrameType_read\<close>.
\<close>

definition handleFrame :: "(buffer \<Rightarrow> nat \<Rightarrow> 'f rd) \<Rightarrow> buffer \<Rightarrow> 'f emitted" where
  "handleFrame FrameType_read chunk =
     (case FrameType_read chunk 0 of
        RdErr err endOff \<Rightarrow> EmitError err endOff chunk
      | RdOk frame endOff \<Rightarrow>
          if endOff < length chunk
          then EmitError (ShortChunkRead (length chunk - endOff)) endOff chunk
          else EmitFrame frame)"

definition push :: "ChunkParser \<Rightarrow> buffer \<Rightarrow> ChunkParser" where
  "push self chunk =
     (if length (buffer self) \<noteq> 0 then self\<lparr>buffer := buffer self @ chunk\<rparr>
      else self\<lparr>buffer := chunk\<rparr>)"

definition shift :: "ChunkParser \<Rightarrow> buffer \<times> ChunkParser" where
  "shift self =
     (if length (buffer self) < expecting self then ([], self)
      else if length (buffer self) > expecting self then
        (take (expecting self) (buffer self), self\<lparr>buffer := drop (expecting self) (buffer self)\<rparr>)
      else (buffer self, self\<lparr>buffer := []\<rparr>))"

text \<open>
  The \<^verbatim>\<open>while\<close> loop of \<^verbatim>\<open>execute\<close>. Nothing in the source bounds it, so it is a partial
  function: \<open>None\<close> is the loop that never exits. A result is the parser, the log of what was
  emitted (the events so far, then those of this run, in order) and the exception that ended
  the run, if any.
\<close>

partial_function (option) execute_loop ::
  "(buffer \<Rightarrow> nat \<Rightarrow> 'f rd) \<Rightarrow> ChunkParser \<Rightarrow> 'f emitted list
     \<Rightarrow> (ChunkParser \<times> 'f emitted list \<times> exn option) option" where
  "execute_loop FrameType_read self log =
     (if length (buffer self) \<ge> expecting self then
        (case state self of
           PendingLength \<Rightarrow>
             (case Buffer_readUInt32BE (buffer self) 0 of
                Inl e \<Rightarrow> Some (self, log, Some e)
              | Inr n \<Rightarrow> execute_loop FrameType_read (self\<lparr>expecting := n, state := Seeking\<rparr>) log)
         | Seeking \<Rightarrow>
             (let (frameChunk, self') = shift self in
              execute_loop FrameType_read (self'\<lparr>expecting := 4, state := PendingLength\<rparr>)
                (log @ [handleFrame FrameType_read frameChunk])))
      else Some (self, log, None))"

definition execute ::
  "(buffer \<Rightarrow> nat \<Rightarrow> 'f rd) \<Rightarrow> ChunkParser \<Rightarrow> 'f emitted list \<Rightarrow> buffer
     \<Rightarrow> (ChunkParser \<times> 'f emitted list \<times> exn option) option" where
  "execute FrameType_read self log chunk = execute_loop FrameType_read (push self chunk) log"

text \<open>
  The socket's \<^verbatim>\<open>data\<close> events in order: \<^verbatim>\<open>execute\<close> on each chunk. A call that never returns,
  or one that throws, ends the sequence.
\<close>

fun execute_chunks ::
  "(buffer \<Rightarrow> nat \<Rightarrow> 'f rd) \<Rightarrow> ChunkParser \<Rightarrow> 'f emitted list \<Rightarrow> buffer list
     \<Rightarrow> (ChunkParser \<times> 'f emitted list \<times> exn option) option" where
  "execute_chunks FrameType_read self log [] = Some (self, log, None)"
| "execute_chunks FrameType_read self log (chunk # chunks) =
     (case execute FrameType_read self log chunk of
        None \<Rightarrow> None
      | Some (self', log', Some e) \<Rightarrow> Some (self', log', Some e)
      | Some (self', log', None) \<Rightarrow> execute_chunks FrameType_read self' log' chunks)"

section \<open>The chunk reader (the stream transform among the unnamed sources)\<close>

text \<open>
  Modelled from the spec: \<^verbatim>\<open>parse_buffer.js\<close> is not among the sources. The parse buffer is a
  byte queue with \<open>avail()\<close>, reads at an offset, and \<open>shift(n)\<close>, which returns exactly \<open>n\<close> bytes
  or signals a broken state if fewer are available; the reader tests that signal as an empty
  result. A read past the available bytes raises \<^verbatim>\<open>RangeError\<close>, as Node's buffers do.
\<close>

definition avail :: "buffer \<Rightarrow> nat" where
  "avail pb = length pb"

definition ParseBuffer_shift :: "nat \<Rightarrow> buffer \<Rightarrow> buffer \<times> buffer" where
  "ParseBuffer_shift n pb = (if n \<le> length pb then (take n pb, drop n pb) else ([], pb))"

definition ParseBuffer_readUInt :: "nat \<Rightarrow> buffer \<Rightarrow> exn + nat" where
  "ParseBuffer_readUInt width pb =
     (if width \<le> length pb then Inr (be_value (take width pb)) else Inl RangeError)"

record ChunkReader =
  rbuffer :: buffer
  frameLengthSize :: nat
  rexpecting :: nat
  rstate :: States

text \<open>What the reader puts out: \<^verbatim>\<open>self.push(frame)\<close> on the readable side, or \<^verbatim>\<open>emit('error', err)\<close>.\<close>

datatype 'f reader_event = PushFrame 'f | EmitErr error

text \<open>How a call of \<^verbatim>\<open>_transform\<close> ends: \<^verbatim>\<open>callback()\<close>, \<^verbatim>\<open>callback(err)\<close>, or an exception.\<close>

datatype outcome = Callback | CallbackErr error | Throw exn

text \<open>
  The constructor: \<^verbatim>\<open>options.frameLengthSize || 2\<close>, and only the widths 1, 2 and 4 have a
  length reader.
\<close>

definition ChunkReader_new :: "nat option \<Rightarrow> exn + ChunkReader" where
  "ChunkReader_new frameLengthSizeOption =
     (let fls = (case frameLengthSizeOption of None \<Rightarrow> 2 | Some n \<Rightarrow> if n = 0 then 2 else n) in
      if fls = 1 \<or> fls = 2 \<or> fls = 4
      then Inr \<lparr>rbuffer = [], frameLengthSize = fls, rexpecting = fls, rstate = PendingLength\<rparr>
      else Inl (JsError ''unsupported frame length size''))"

text \<open>
  \<^verbatim>\<open>self._readLength()\<close>: the method the constructor chose for the width. An object with
  another width has no such method (the constructor never builds one).
\<close>

definition readLength :: "ChunkReader \<Rightarrow> exn + nat" where
  "readLength self =
     (if frameLengthSize self = 1 \<or> frameLengthSize self = 2 \<or> frameLengthSize self = 4
      then ParseBuffer_readUInt (frameLengthSize self) (rbuffer self)
      else Inl TypeError)"

text \<open>
  \<^verbatim>\<open>handleFrame\<close> of the reader: \<^verbatim>\<open>bufrw.fromBufferTuple(self.FrameType.struct, chunk)\<close>. The frame
  type is the constructor's argument, here the parameter \<open>fromBufferTuple\<close>.
\<close>

definition reader_handleFrame :: "(buffer \<Rightarrow> error + 'f) \<Rightarrow> buffer \<Rightarrow> 'f reader_event" where
  "reader_handleFrame fromBufferTuple chunk =
     (case fromBufferTuple chunk of Inl err \<Rightarrow> EmitErr err | Inr frame \<Rightarrow> PushFrame frame)"

function transform_loop ::
  "(buffer \<Rightarrow> error + 'f) \<Rightarrow> ChunkReader \<Rightarrow> 'f reader_event list
     \<Rightarrow> ChunkReader \<times> 'f reader_event list \<times> outcome" where
  "transform_loop fromBufferTuple self log =
     (if avail (rbuffer self) \<ge> rexpecting self then
        (case rstate self of
           PendingLength \<Rightarrow>
             (case readLength self of
                Inl e \<Rightarrow> (self, log, Throw e)
              | Inr n \<Rightarrow>
                  if n = 0 then
                    transform_loop fromBufferTuple
                      (self\<lparr>rbuffer := snd (ParseBuffer_shift (frameLengthSize self) (rbuffer self)),
                            rexpecting := frameLengthSize self,
                            rstate := PendingLength\<rparr>)
                      (log @ [EmitErr ZeroLengthFrameError])
                  else transform_loop fromBufferTuple (self\<lparr>rexpecting := n, rstate := Seeking\<rparr>) log)
         | Seeking \<Rightarrow>
             (let frameChunk = fst (ParseBuffer_shift (rexpecting self) (rbuffer self));
                  rest = snd (ParseBuffer_shift (rexpecting self) (rbuffer self))
              in if length frameChunk = 0
                 then (self\<lparr>rbuffer := rest\<rparr>, log, CallbackErr BrokenReaderStateError)
                 else transform_loop fromBufferTuple
                        (self\<lparr>rbuffer := rest, rexpecting := frameLengthSize self, rstate := PendingLength\<rparr>)
                        (log @ [reader_handleFrame fromBufferTuple frameChunk])))
      else (self, log, Callback))"
  by pat_completeness auto
termination
proof (relation "measure (\<lambda>(f, self, log). 2 * length (rbuffer self) + (if rstate self = PendingLength then 1 else 0))")
qed (auto simp: avail_def readLength_def ParseBuffer_readUInt_def ParseBuffer_shift_def
       split: if_splits)

definition transform :: "(buffer \<Rightarrow> error + 'f) \<Rightarrow> ChunkReader \<Rightarrow> 'f reader_event list \<Rightarrow> buffer
     \<Rightarrow> ChunkReader \<times> 'f reader_event list \<times> outcome" where
  "transform fromBufferTuple self log chunk =
     transform_loop fromBufferTuple (self\<lparr>rbuffer := rbuffer self @ chunk\<rparr>) log"

text \<open>The chunks of the stream in order; a call that ends in an error ends the stream.\<close>

fun transform_chunks :: "(buffer \<Rightarrow> error + 'f) \<Rightarrow> ChunkReader \<Rightarrow> 'f reader_event list \<Rightarrow> buffer list
     \<Rightarrow> ChunkReader \<times> 'f reader_event list \<times> outcome" where
  "transform_chunks fromBufferTuple self log [] = (self, log, Callback)"
| "transform_chunks fromBufferTuple self log (chunk # chunks) =
     (case transform fromBufferTuple self log chunk of
        (self', log', Callback) \<Rightarrow> transform_chunks fromBufferTuple self' log' chunks
      | (self', log', other) \<Rightarrow> (self', log', other))"

text \<open>
  A well-formed frame on the wire, as far as framing goes: it starts with its own total
  length as a 4-byte big-endian number.
\<close>

definition wf_frame_bytes :: "buffer \<Rightarrow> bool" where
  "wf_frame_bytes f = (4 \<le> length f \<and> be_value (take 4 f) = length f)"

text \<open>
  The states the two loops are in between chunks. The chunk parser waits for a length with
  \<open>expecting = 4\<close>; the chunk reader has one of the three widths, waits for a length with
  \<open>expecting\<close> the width, and seeks a frame of a positive length.
\<close>

definition parser_inv :: "ChunkParser \<Rightarrow> bool" where
  "parser_inv p = (if state p = PendingLength then expecting p = 4 else True)"

definition reader_inv :: "ChunkReader \<Rightarrow> bool" where
  "reader_inv r =
     ((frameLengthSize r = 1 \<or> frameLengthSize r = 2 \<or> frameLengthSize r = 4)
      \<and> (if rstate r = PendingLength then rexpecting r = frameLengthSize r else 0 < rexpecting r))"

text \<open>A parser, and a reader of width 4, waiting for a length with the given bytes buffered.\<close>

definition parser :: "buffer \<Rightarrow> ChunkParser" where
  "parser buf = \<lparr>buffer = buf, expecting = 4, state = PendingLength\<rparr>"

definition reader4 :: "buffer \<Rightarrow> ChunkReader" where
  "reader4 buf = \<lparr>rbuffer = buf, frameLengthSize = 4, rexpecting = 4, rstate = PendingLength\<rparr>"

text \<open>
  The states of the chunk parser around a zero length: four zero bytes at the head of the
  buffer, and either waiting for the length or seeking a frame of length 0.
\<close>

definition zero_length_loop :: "ChunkParser \<Rightarrow> bool" where
  "zero_length_loop p =
     (4 \<le> length (buffer p) \<and> be_value (take 4 (buffer p)) = 0
      \<and> (state p = PendingLength \<and> expecting p = 4 \<or> state p = Seeking \<and> expecting p = 0))"

section \<open>JavaScript values and the error envelope (lib/error_serial.js)\<close>

text \<open>
  The values that travel as errors and results: \<^verbatim>\<open>undefined\<close>, \<^verbatim>\<open>null\<close>, booleans, integral
  numbers, strings (buffers are identified with strings), arrays, plain objects with their
  own enumerable properties in order, and error objects. An error object has the name of its
  constructor, its message, its stack and its own enumerable properties. The stack text is
  written by the runtime; \<open>new_Error\<close> leaves it empty.
\<close>

datatype jsval =
    JUndefined
  | JNull
  | JBool bool
  | JNum int
  | JStr string
  | JArr "jsval list"
  | JObj "(string \<times> jsval) list"
  | JError string string string "(string \<times> jsval) list"

definition new_Error :: "string \<Rightarrow> jsval" where
  "new_Error message = JError ''Error'' message [] []"

fun truthy :: "jsval \<Rightarrow> bool" where
  "truthy JUndefined = False"
| "truthy JNull = False"
| "truthy (JBool b) = b"
| "truthy (JNum n) = (n \<noteq> 0)"
| "truthy (JStr s) = (s \<noteq> [])"
| "truthy (JArr xs) = True"
| "truthy (JObj kvs) = True"
| "truthy (JError n m st props) = True"

text \<open>Decimal digits of a number, for array indices as property names and for messages.\<close>

fun decimal :: "nat \<Rightarrow> string" where
  "decimal n = (if n < 10 then [char_of (48 + n)] else decimal (n div 10) @ [char_of (48 + n mod 10)])"

text \<open>
  \<^verbatim>\<open>Object.keys\<close>: \<^verbatim>\<open>TypeError\<close> on \<^verbatim>\<open>undefined\<close> and \<^verbatim>\<open>null\<close>; the indices of an array or a string,
  nothing for a number or a boolean (ECMAScript 2015; ECMAScript 5 raises \<^verbatim>\<open>TypeError\<close> on
  every primitive).
\<close>

fun Object_keys :: "jsval \<Rightarrow> exn + string list" where
  "Object_keys JUndefined = Inl TypeError"
| "Object_keys JNull = Inl TypeError"
| "Object_keys (JBool b) = Inr []"
| "Object_keys (JNum n) = Inr []"
| "Object_keys (JStr s) = Inr (map decimal [0..<length s])"
| "Object_keys (JArr xs) = Inr (map decimal [0..<length xs])"
| "Object_keys (JObj kvs) = Inr (map fst kvs)"
| "Object_keys (JError n m st props) = Inr (map fst props)"

text \<open>\<^verbatim>\<open>obj[key]\<close> and \<^verbatim>\<open>obj[key] = v\<close> on a plain object; \<^verbatim>\<open>delete obj[key]\<close>.\<close>

fun js_get :: "jsval \<Rightarrow> string \<Rightarrow> jsval" where
  "js_get (JObj kvs) k = (case map_of kvs k of Some v \<Rightarrow> v | None \<Rightarrow> JUndefined)"
| "js_get v k = JUndefined"

fun props_set :: "string \<Rightarrow> jsval \<Rightarrow> (string \<times> jsval) list \<Rightarrow> (string \<times> jsval) list" where
  "props_set k v [] = [(k, v)]"
| "props_set k v ((k', v') # kvs) = (if k = k' then (k, v) # kvs else (k', v') # props_set k v kvs)"

definition props_delete :: "string \<Rightarrow> (string \<times> jsval) list \<Rightarrow> (string \<times> jsval) list" where
  "props_delete k kvs = filter (\<lambda>(k', v). k' \<noteq> k) kvs"

text \<open>
  The JSON functions and the string conversion belong to the runtime and its libraries
  (\<^verbatim>\<open>safe-json-parse\<close>, \<^verbatim>\<open>json-stringify-safe\<close>): they are parameters. \<open>safeParse\<close> is \<open>None\<close> when
  the text is not JSON, and the parsed value otherwise.
\<close>

record platform =
  safeParse :: "string \<Rightarrow> jsval option"
  stringify :: "jsval \<Rightarrow> string"
  toString :: "jsval \<Rightarrow> string"

fun isError :: "jsval \<Rightarrow> bool" where
  "isError (JError n m st props) = True"
| "isError v = False"

fun serializeErrorObject :: "jsval \<Rightarrow> jsval" where
  "serializeErrorObject (JError n m st props) =
     JObj (fold (\<lambda>(prop, v) data. props_set prop v data) props
             [(''name'', JStr n), (''message'', JStr m), (''stack'', JStr st)])"
| "serializeErrorObject v = v"

definition serializeError :: "platform \<Rightarrow> jsval \<Rightarrow> string" where
  "serializeError P err =
     (case err of
        JStr s \<Rightarrow> s
      | _ \<Rightarrow> stringify P (if isError err then JObj [(''$jsError'', serializeErrorObject err)] else err))"

text \<open>
  \<^verbatim>\<open>deserializeError\<close>. The name is looked up on the parsed value itself (\<^verbatim>\<open>data.name\<close>), as the
  source does, not inside its \<^verbatim>\<open>$jsError\<close> entry.
\<close>

definition deserializeError :: "platform \<Rightarrow> string \<Rightarrow> exn + jsval" where
  "deserializeError P str =
     (case safeParse P str of
        None \<Rightarrow> Inr (JStr str)
      | Some data \<Rightarrow>
          (case Object_keys data of
             Inl e \<Rightarrow> Inl e
           | Inr ks \<Rightarrow>
               if length ks = 1 \<and> ks ! 0 = ''$jsError'' then
                 (let name = js_get data ''name'' in
                  if \<not> truthy name then Inr data
                  else Inr (JError ''Error''
                         (case js_get data ''message'' of JUndefined \<Rightarrow> [] | m \<Rightarrow> toString P m)
                         []
                         (case data of
                            JObj kvs \<Rightarrow> props_delete ''message'' (props_delete ''name'' kvs)
                          | _ \<Rightarrow> [])))
               else Inr data))"

text \<open>
  A stand-in for the runtime in concrete runs: of all JSON texts it knows only \<^verbatim>\<open>{}\<close>, the
  empty object, which \<^verbatim>\<open>JSON.parse\<close> parses to an object without properties, and \<^verbatim>\<open>null\<close>,
  which it parses to \<^verbatim>\<open>null\<close>. It is used only at these texts and at texts that are not JSON.
\<close>

definition example_platform :: platform where
  "example_platform =
     \<lparr>safeParse = (\<lambda>s. if s = ''{}'' then Some (JObj []) else if s = ''null'' then Some JNull else None),
      stringify = (\<lambda>v. ''{}''),
      toString = (\<lambda>v. [])\<rparr>"

section \<open>The endpoint registries (index.js, and the router appended to lib/error_serial.js)\<close>

text \<open>What is registered under a name: a function (identified by a number) or any other value.\<close>

datatype handler_value = Function nat | NotFunction jsval

record TRouterService =
  service_name :: string
  service_endpoints :: "string \<rightharpoonup> handler_value"

text \<open>\<^verbatim>\<open>TRouterService.prototype.register\<close>: the new service and the handler, or what it throws.\<close>

definition TRouterService_register ::
  "TRouterService \<Rightarrow> string \<Rightarrow> handler_value \<Rightarrow> exn + (TRouterService \<times> handler_value)" where
  "TRouterService_register self name handler =
     (if service_endpoints self name \<noteq> None
      then Inl (EndpointAlreadyDefinedError (service_name self) name)
      else (case handler of
              NotFunction v \<Rightarrow> Inl (JsError ''invalid handler'')
            | Function f \<Rightarrow>
                Inr (self\<lparr>service_endpoints := (service_endpoints self)(name \<mapsto> handler)\<rparr>, handler)))"

section \<open>Frame identifiers (index.js, TChannelConnection.prototype.nextFrameId)\<close>

text \<open>
  \<^verbatim>\<open>self.lastSentFrameId = (self.lastSentFrameId + 1) % 0xffffffff; return self.lastSentFrameId;\<close>
  The counter is a JavaScript number holding a non-negative integer far below \<open>2^53\<close>, so the
  arithmetic is exact and is modelled on \<open>nat\<close>. The identifier returned is the new value of
  the counter.
\<close>

definition nextFrameId :: "nat \<Rightarrow> nat" where
  "nextFrameId lastSentFrameId = (lastSentFrameId + 1) mod 0xffffffff"

section \<open>The channel and its connections (index.js)\<close>

text \<open>
  Objects whose identity matters (a connection in a peer list, a timer) are referred to by a
  number. User-supplied functions (completion callbacks, endpoint handlers) are opaque: the
  model records that they are called, and with what, in the list of effects a function
  returns; it assumes that they do not call back into the connection before they return.
  Logging is left out.
\<close>

datatype direction = In | Out

text \<open>
  The handler a \<^verbatim>\<open>TChannelServerOp\<close> runs: a registered function, or the \<^verbatim>\<open>noSuchHandler\<close> closure
  that \<^verbatim>\<open>handleCallRequest\<close> builds around the requested name.
\<close>

datatype handler_fn = UserHandler nat | NoSuchHandler string

record TChannelClientOp =
  frame :: Frame
  callback :: nat
  start :: int
  timeout :: "int option"
  timedOut :: bool

record TChannelServerOp =
  handler :: handler_fn
  reqFrame :: Frame
  in_timedOut :: bool
  in_timeout :: "int option"
  in_start :: int
  checksumType :: nat
  responseSent :: bool

datatype effect =
    CallSink nat jsval jsval jsval
  | SocketWrite buffer
  | SocketDestroy
  | ClearTimeout nat
  | SetTimeout int
  | ConnEmit string
  | ChannelEmit string "jsval list"
  | ChannelEmitSocketClose nat jsval
  | NextTick handler_fn jsval jsval jsval

record TChannel =
  hostPort :: string
  processName :: string
  reqTimeoutDefault :: int
  serverTimeoutDefault :: int
  timeoutCheckInterval :: int
  timeoutFuzz :: int
  peers :: "string \<rightharpoonup> nat list"
  endpoints :: "string \<rightharpoonup> handler_value"
  destroyed :: bool

text \<open>
  A connection. The operation tables are objects keyed by frame id; \<^verbatim>\<open>Object.keys\<close> lists such
  keys in ascending order, so a table is an association list kept in ascending order of its
  keys. \<open>resetListeners\<close> and \<open>socketCloseListeners\<close> are the listeners that \<^verbatim>\<open>addPeer\<close> attached
  with \<^verbatim>\<open>once\<close>: for \<^verbatim>\<open>reset\<close>, the \<^verbatim>\<open>hostPort\<close> each listener captured, oldest first; for
  \<^verbatim>\<open>socketClose\<close>, their number.
\<close>

record TChannelConnection =
  conn_ref :: nat
  direction :: direction
  remoteAddr :: string
  timer :: "nat option"
  remoteName :: "string option"
  inOps :: "(nat \<times> TChannelServerOp) list"
  inPending :: int
  outOps :: "(nat \<times> TChannelClientOp) list"
  outPending :: int
  lastSentFrameId :: nat
  lastTimeoutTime :: int
  closing :: bool
  resetListeners :: "string list"
  socketCloseListeners :: nat

type_synonym outcome4 = "TChannel \<times> TChannelConnection \<times> effect list \<times> exn option"

fun ops_set :: "nat \<Rightarrow> 'a \<Rightarrow> (nat \<times> 'a) list \<Rightarrow> (nat \<times> 'a) list" where
  "ops_set k v [] = [(k, v)]"
| "ops_set k v ((k', v') # kvs) =
     (if k = k' then (k, v) # kvs
      else if k < k' then (k, v) # (k', v') # kvs
      else (k', v') # ops_set k v kvs)"

definition ops_delete :: "nat \<Rightarrow> (nat \<times> 'a) list \<Rightarrow> (nat \<times> 'a) list" where
  "ops_delete k kvs = filter (\<lambda>(k', v). k' \<noteq> k) kvs"

subsection \<open>Registration and the peer table\<close>

definition register :: "TChannel \<Rightarrow> string \<Rightarrow> handler_value \<Rightarrow> TChannel" where
  "register self op cb = self\<lparr>endpoints := (endpoints self)(op \<mapsto> cb)\<rparr>"

definition setPeer :: "TChannel \<Rightarrow> string \<Rightarrow> TChannelConnection \<Rightarrow> exn + TChannel" where
  "setPeer self hp conn =
     (if hp = hostPort self then Inl (JsError ''refusing to set self peer'')
      else
        (let list = (case peers self hp of None \<Rightarrow> [] | Some l \<Rightarrow> l) in
         if direction conn = Out
         then Inr (self\<lparr>peers := (peers self)(hp \<mapsto> conn_ref conn # list)\<rparr>)
         else Inr (self\<lparr>peers := (peers self)(hp \<mapsto> list @ [conn_ref conn])\<rparr>)))"

definition getPeer :: "TChannel \<Rightarrow> string \<Rightarrow> nat option" where
  "getPeer self hp =
     (case peers self hp of
        None \<Rightarrow> None
      | Some list \<Rightarrow> (case list of [] \<Rightarrow> None | peer # rest \<Rightarrow> Some peer))"

text \<open>\<^verbatim>\<open>list.indexOf(conn)\<close>, with \<open>None\<close> for \<open>-1\<close>, and \<^verbatim>\<open>list.splice(index, 1)\<close>.\<close>

fun indexOf :: "'a list \<Rightarrow> 'a \<Rightarrow> nat option" where
  "indexOf [] x = None"
| "indexOf (y # ys) x = (if y = x then Some 0 else map_option Suc (indexOf ys x))"

definition splice1 :: "'a list \<Rightarrow> nat \<Rightarrow> 'a list" where
  "splice1 list i = take i list @ drop (Suc i) list"

definition removePeer :: "TChannel \<Rightarrow> string \<Rightarrow> nat \<Rightarrow> TChannel" where
  "removePeer self hp conn =
     (case peers self hp of
        None \<Rightarrow> self
      | Some list \<Rightarrow>
          (case indexOf list conn of
             None \<Rightarrow> self
           | Some i \<Rightarrow> self\<lparr>peers := (peers self)(hp \<mapsto> splice1 list i)\<rparr>))"

text \<open>
  \<^verbatim>\<open>addPeer(hostPort, connection)\<close> with the connection given (without it the channel first
  dials one): the two \<^verbatim>\<open>once\<close> listeners are attached to the connection, then \<^verbatim>\<open>setPeer\<close>.
\<close>

definition addPeer :: "TChannel \<Rightarrow> string \<Rightarrow> TChannelConnection \<Rightarrow> exn + (TChannel \<times> TChannelConnection)" where
  "addPeer self hp connection =
     (if hp = hostPort self then Inl (JsError ''refusing to add self peer'')
      else
        (let connection' = connection\<lparr>resetListeners := resetListeners connection @ [hp],
                                       socketCloseListeners := socketCloseListeners connection + 1\<rparr>
         in case setPeer self hp connection' of
              Inl e \<Rightarrow> Inl e
            | Inr self' \<Rightarrow> Inr (self', connection')))"

text \<open>The peer sequence of a channel under a name; no entry is the empty sequence.\<close>

definition peer_list :: "TChannel \<Rightarrow> string \<Rightarrow> nat list" where
  "peer_list ch hp = (case peers ch hp of None \<Rightarrow> [] | Some l \<Rightarrow> l)"

subsection \<open>Timers and the sweep\<close>

definition clearTimeoutTimer :: "TChannelConnection \<Rightarrow> TChannelConnection \<times> effect list" where
  "clearTimeoutTimer self =
     (case timer self of
        Some t \<Rightarrow> (self\<lparr>timer := None\<rparr>, [ClearTimeout t])
      | None \<Rightarrow> (self, []))"

text \<open>
  \<^verbatim>\<open>getTimeoutDelay\<close>: \<open>draw\<close> is \<^verbatim>\<open>Math.floor(self.channel.random() * fuzz)\<close>, an integer chosen by
  the injected random source. \<^verbatim>\<open>Math.round\<close> of \<open>draw - fuzz / 2\<close> rounds a half upwards,
  which on integers is \<open>(2 * draw - fuzz + 1) div 2\<close>.
\<close>

definition getTimeoutDelay :: "TChannel \<Rightarrow> int \<Rightarrow> int" where
  "getTimeoutDelay ch draw = timeoutCheckInterval ch + (2 * draw - timeoutFuzz ch + 1) div 2"

definition startTimeoutTimer ::
  "TChannel \<Rightarrow> TChannelConnection \<Rightarrow> int \<Rightarrow> nat \<Rightarrow> TChannelConnection \<times> effect list" where
  "startTimeoutTimer ch self draw newTimer =
     (self\<lparr>timer := Some newTimer\<rparr>, [SetTimeout (getTimeoutDelay ch draw)])"

text \<open>
  \<^verbatim>\<open>onReqTimeout\<close>. The clock is injected; one reading \<open>now\<close> stands for every call of
  \<^verbatim>\<open>self.channel.now()\<close> within one synchronous sweep. The operation object is already out of
  the table when its \<^verbatim>\<open>timedOut\<close> flag is set, so the flag leaves no trace in the connection.
\<close>

definition onReqTimeout ::
  "TChannelConnection \<Rightarrow> TChannelClientOp \<Rightarrow> int \<Rightarrow> TChannelConnection \<times> effect list" where
  "onReqTimeout self op now =
     (self\<lparr>lastTimeoutTime := now\<rparr>, [CallSink (callback op) (new_Error ''timed out'') JNull JNull])"

text \<open>
  \<^verbatim>\<open>checkOutOpsForTimeout\<close>: the loop over the keys that \<^verbatim>\<open>Object.keys(ops)\<close> listed before it.
  \<^verbatim>\<open>op.timedOut\<close> is read before the test for \<^verbatim>\<open>undefined\<close>, so a key without an operation ends the
  loop with a \<^verbatim>\<open>TypeError\<close>.
\<close>

fun checkOutOps_loop ::
  "TChannel \<Rightarrow> int \<Rightarrow> nat list \<Rightarrow> TChannelConnection \<Rightarrow> TChannelConnection \<times> effect list \<times> exn option" where
  "checkOutOps_loop ch now [] self = (self, [], None)"
| "checkOutOps_loop ch now (opKey # opKeys) self =
     (case map_of (outOps self) opKey of
        None \<Rightarrow> (self, [], Some TypeError)
      | Some op \<Rightarrow>
          if timedOut op then
            checkOutOps_loop ch now opKeys
              (self\<lparr>outOps := ops_delete opKey (outOps self), outPending := outPending self - 1\<rparr>)
          else
            (let tmo = (case timeout op of
                          None \<Rightarrow> reqTimeoutDefault ch
                        | Some t \<Rightarrow> if t \<noteq> 0 then t else reqTimeoutDefault ch);
                 duration = now - start op
             in if duration > tmo then
                  (let self1 = self\<lparr>outOps := ops_delete opKey (outOps self),
                                     outPending := outPending self - 1\<rparr>;
                       (self2, es) = onReqTimeout self1 op now;
                       (self3, es', x) = checkOutOps_loop ch now opKeys self2
                   in (self3, es @ es', x))
                else checkOutOps_loop ch now opKeys self))"

definition checkOutOpsForTimeout ::
  "TChannel \<Rightarrow> TChannelConnection \<Rightarrow> int \<Rightarrow> TChannelConnection \<times> effect list \<times> exn option" where
  "checkOutOpsForTimeout ch self now = checkOutOps_loop ch now (map fst (outOps self)) self"

fun checkInOps_loop :: "TChannel \<Rightarrow> int \<Rightarrow> nat list \<Rightarrow> TChannelConnection \<Rightarrow> TChannelConnection" where
  "checkInOps_loop ch now [] self = self"
| "checkInOps_loop ch now (opKey # opKeys) self =
     (case map_of (inOps self) opKey of
        None \<Rightarrow> checkInOps_loop ch now opKeys self
      | Some op \<Rightarrow>
          if now - in_start op > serverTimeoutDefault ch
          then checkInOps_loop ch now opKeys
                 (self\<lparr>inOps := ops_delete opKey (inOps self), inPending := inPending self - 1\<rparr>)
          else checkInOps_loop ch now opKeys self)"

definition checkInOpsForTimeout :: "TChannel \<Rightarrow> TChannelConnection \<Rightarrow> int \<Rightarrow> TChannelConnection" where
  "checkInOpsForTimeout ch self now = checkInOps_loop ch now (map fst (inOps self)) self"

text \<open>
  \<^verbatim>\<open>onTimeoutCheck\<close>, one tick of the sweeper. The environment supplies the clock reading, the
  random draw and the handle of the timer that \<^verbatim>\<open>setTimeout\<close> returns.
\<close>

definition onTimeoutCheck ::
  "TChannel \<Rightarrow> TChannelConnection \<Rightarrow> int \<Rightarrow> int \<Rightarrow> nat \<Rightarrow> TChannelConnection \<times> effect list \<times> exn option" where
  "onTimeoutCheck ch self now draw newTimer =
     (if closing self then (self, [], None)
      else if lastTimeoutTime self \<noteq> 0 then (self, [SocketDestroy], None)
      else
        (case checkOutOpsForTimeout ch self now of
           (self1, es, Some e) \<Rightarrow> (self1, es, Some e)
         | (self1, es, None) \<Rightarrow>
             (let self2 = checkInOpsForTimeout ch self1 now;
                  (self3, es') = startTimeoutTimer ch self2 draw newTimer
              in (self3, es @ es', None))))"

subsection \<open>Reset\<close>

text \<open>
  \<^verbatim>\<open>self.emit('reset')\<close> runs the listeners that \<^verbatim>\<open>addPeer\<close> attached, oldest first; each was
  attached with \<^verbatim>\<open>once\<close> and calls \<^verbatim>\<open>removePeer(hostPort, connection)\<close>.
  \<^verbatim>\<open>self.emit('socketClose', self, err)\<close> runs the other listeners, each of which re-emits the
  event on the channel.
\<close>

definition emit_reset :: "TChannel \<Rightarrow> TChannelConnection \<Rightarrow> TChannel \<times> TChannelConnection \<times> effect list" where
  "emit_reset ch self =
     (foldl (\<lambda>ch' hp. removePeer ch' hp (conn_ref self)) ch (resetListeners self),
      self\<lparr>resetListeners := []\<rparr>,
      [ConnEmit ''reset''])"

definition emit_socketClose :: "TChannelConnection \<Rightarrow> jsval \<Rightarrow> TChannelConnection \<times> effect list" where
  "emit_socketClose self err =
     (self\<lparr>socketCloseListeners := 0\<rparr>,
      ConnEmit ''socketClose''
        # replicate (socketCloseListeners self) (ChannelEmitSocketClose (conn_ref self) err))"

text \<open>
  The loop of \<^verbatim>\<open>resetAll\<close> over the keys of \<^verbatim>\<open>outOps\<close> as they were listed on entry: the
  operation is taken out of the table and its callback is called with the error.
\<close>

fun resetOutOps ::
  "jsval \<Rightarrow> nat list \<Rightarrow> TChannelConnection \<Rightarrow> TChannelConnection \<times> effect list \<times> exn option" where
  "resetOutOps err [] self = (self, [], None)"
| "resetOutOps err (opId # opIds) self =
     (case map_of (outOps self) opId of
        None \<Rightarrow> (self, [], Some TypeError)
      | Some op \<Rightarrow>
          (let self1 = self\<lparr>outOps := ops_delete opId (outOps self)\<rparr>;
               (self2, es, x) = resetOutOps err opIds self1
           in (self2, CallSink (callback op) err JNull JNull # es, x)))"

definition resetAll :: "TChannel \<Rightarrow> TChannelConnection \<Rightarrow> jsval \<Rightarrow> outcome4" where
  "resetAll ch self err =
     (if closing self then (ch, self, [], None)
      else
        (let self1 = self\<lparr>closing := True\<rparr>;
             inOpKeys = map fst (inOps self1);
             outOpKeys = map fst (outOps self1);
             (self2, es1) = clearTimeoutTimer self1;
             (ch', self3, es2) = emit_reset ch self2;
             self4 = foldl (\<lambda>c opId. c\<lparr>inOps := ops_delete opId (inOps c)\<rparr>) self3 inOpKeys
         in case resetOutOps err outOpKeys self4 of
              (self5, es3, Some e) \<Rightarrow> (ch', self5, es1 @ es2 @ es3, Some e)
            | (self5, es3, None) \<Rightarrow>
                (let self6 = self5\<lparr>inPending := 0, outPending := 0\<rparr>;
                     (self7, es4) = emit_socketClose self6 err
                 in (ch', self7, es1 @ es2 @ es3 @ es4, None))))"

definition onSocketErr :: "TChannel \<Rightarrow> TChannelConnection \<Rightarrow> jsval \<Rightarrow> outcome4" where
  "onSocketErr ch self err = (if \<not> closing self then resetAll ch self err else (ch, self, [], None))"

subsection \<open>Sending\<close>

text \<open>
  \<^verbatim>\<open>buildRequest(options, arg1, arg2, arg3)\<close>, with \<^verbatim>\<open>options.timeout\<close> given (a number) or not,
  and for options that give the tracing, the service and the headers (their defaults,
  \<^verbatim>\<open>null\<close> and the empty object, are not byte strings): the time to live is
  \<^verbatim>\<open>options.timeout || 1\<close>, the checksum a new one of type FarmHash32, id 2 in the spec, whose
  value is computed when the frame is written and is 0 until then.
\<close>

definition buildRequest ::
  "nat option \<Rightarrow> buffer \<Rightarrow> buffer \<Rightarrow> headers \<Rightarrow> buffer \<Rightarrow> buffer \<Rightarrow> buffer \<Rightarrow> body" where
  "buildRequest tmo tracing service hs arg1 arg2 arg3 =
     (let ttl = (case tmo of None \<Rightarrow> 1 | Some t \<Rightarrow> if t \<noteq> 0 then t else 1);
          csum = \<lparr>ctype = 2, cval = 0\<rparr>
      in CallRequest ttl tracing service hs arg1 arg2 arg3 csum)"

text \<open>
  \<^verbatim>\<open>TChannelConnection.prototype.send(reqBody, callback)\<close>, which \<^verbatim>\<open>TChannel.prototype.send\<close> calls
  with the body that \<^verbatim>\<open>buildRequest\<close> made: the next frame id, the operation record (the
  constructor \<^verbatim>\<open>TChannelClientOp\<close> takes the timeout from \<^verbatim>\<open>frame.body.ttl\<close>), the bytes. Writing
  the frame updates the checksum of the body that the record holds; a write that raises
  leaves the record in the table.
\<close>

fun body_ttl :: "body \<Rightarrow> int option" where
  "body_ttl (CallRequest ttl tracing service hs arg1 arg2 arg3 csum) = Some (int ttl)"
| "body_ttl b = None"

definition send ::
  "csum_alg \<Rightarrow> TChannelConnection \<Rightarrow> body \<Rightarrow> nat \<Rightarrow> int
     \<Rightarrow> TChannelConnection \<times> effect list \<times> exn option" where
  "send alg self reqBody cb now =
     (let opId = nextFrameId (lastSentFrameId self);
          reqFrame = \<lparr>frame_id = opId, flags = 0, body = reqBody\<rparr>;
          op = \<lparr>frame = reqFrame, callback = cb, start = now, timeout = body_ttl reqBody, timedOut = False\<rparr>;
          self1 = self\<lparr>lastSentFrameId := opId, outOps := ops_set opId op (outOps self)\<rparr>
      in case Frame_write alg reqFrame of
           Inl err \<Rightarrow> (self1, [], Some (CodecError err))
         | Inr (bytes, reqFrame') \<Rightarrow>
             (self1\<lparr>outOps := ops_set opId (op\<lparr>frame := reqFrame'\<rparr>) (outOps self)\<rparr>,
              [SocketWrite bytes], None))"

subsection \<open>Incoming frames\<close>

text \<open>
  \<^verbatim>\<open>handleCallRequest\<close>. \<^verbatim>\<open>onFrame\<close> calls it with a call request body only. When the name has
  no registered function, the source builds the \<^verbatim>\<open>noSuchHandler\<close> closure, emits
  \<^verbatim>\<open>endpoint.missing\<close> on the channel, and returns.
\<close>

definition handleCallRequest :: "TChannel \<Rightarrow> TChannelConnection \<Rightarrow> Frame \<Rightarrow> int \<Rightarrow> outcome4" where
  "handleCallRequest ch self reqFrm now =
     (case remoteName self of
        None \<Rightarrow> resetAll ch self (new_Error ''call request before init request'')
      | Some rname \<Rightarrow>
          (case body reqFrm of
             CallRequest ttl tracing service hs arg1 arg2 arg3 csum \<Rightarrow>
               (let opId = frame_id reqFrm;
                    name = arg1
                in case endpoints ch name of
                     Some (Function f) \<Rightarrow>
                       (let op = \<lparr>handler = UserHandler f, reqFrame = reqFrm, in_timedOut = False,
                                  in_timeout = Some (int ttl), in_start = now,
                                  checksumType = ctype csum, responseSent = False\<rparr>
                        in (ch,
                            self\<lparr>inPending := inPending self + 1, inOps := ops_set opId op (inOps self)\<rparr>,
                            [ChannelEmit ''endpoint'' [JObj [(''name'', JStr name)]],
                             NextTick (UserHandler f) (JStr arg2) (JStr arg3) (JStr rname)],
                            None))
                   | _ \<Rightarrow>
                       (let hdl = NoSuchHandler name
                        in (ch, self, [ChannelEmit ''endpoint.missing'' [JObj [(''name'', JStr name)]]], None)))
           | _ \<Rightarrow> (ch, self, [], None)))"

text \<open>
  What the \<^verbatim>\<open>noSuchHandler\<close> closure does when it is run: it calls its callback with an error
  whose message is \<^verbatim>\<open>no such operation\<close> and whose \<^verbatim>\<open>op\<close> is the name.
\<close>

definition noSuchHandler_error :: "string \<Rightarrow> jsval" where
  "noSuchHandler_error name = JError ''Error'' ''no such operation'' [] [(''op'', JStr name)]"





text \<open>
  A connection is tracked by its channel when each of its occurrences in a peer list has a
  \<^verbatim>\<open>reset\<close> listener for that list's name: \<^verbatim>\<open>addPeer\<close>, the only caller of \<^verbatim>\<open>setPeer\<close>, attaches one
  with every entry it makes.
\<close>

definition tracked :: "TChannel \<Rightarrow> TChannelConnection \<Rightarrow> bool" where
  "tracked ch self =
     (\<forall>hp. count_list (peer_list ch hp) (conn_ref self) \<le> count_list (resetListeners self) hp)"

subsection \<open>The sweep, stated\<close>

text \<open>
  The timeout the sweep applies to an outbound operation, \<^verbatim>\<open>op.timeout || reqTimeoutDefault\<close>,
  and whether the operation has run past it at the clock reading \<open>now\<close>.
\<close>

definition effective_timeout :: "TChannel \<Rightarrow> TChannelClientOp \<Rightarrow> int" where
  "effective_timeout ch op =
     (case timeout op of
        None \<Rightarrow> reqTimeoutDefault ch
      | Some t \<Rightarrow> if t \<noteq> 0 then t else reqTimeoutDefault ch)"

definition expired :: "TChannel \<Rightarrow> int \<Rightarrow> TChannelClientOp \<Rightarrow> bool" where
  "expired ch now op = (now - start op > effective_timeout ch op)"

text \<open>
  An outbound operation has its own timeout when \<^verbatim>\<open>op.timeout\<close> is a number other than 0. Every
  operation that \<^verbatim>\<open>TChannel.prototype.send\<close> records has one: its time to live is the
  \<^verbatim>\<open>options.timeout || 1\<close> of \<^verbatim>\<open>buildRequest\<close>. Such an operation is overdue at the clock reading
  \<open>now\<close> when it has run for longer than its timeout. An inbound operation is overdue when it
  has run for longer than the channel's \<open>serverTimeoutDefault\<close>.
\<close>

definition timeout_set :: "TChannelClientOp \<Rightarrow> bool" where
  "timeout_set op = (case timeout op of None \<Rightarrow> False | Some t \<Rightarrow> t \<noteq> 0)"

definition overdue :: "int \<Rightarrow> TChannelClientOp \<Rightarrow> bool" where
  "overdue now op = (case timeout op of None \<Rightarrow> False | Some t \<Rightarrow> now - start op > t)"

definition in_overdue :: "TChannel \<Rightarrow> int \<Rightarrow> TChannelServerOp \<Rightarrow> bool" where
  "in_overdue ch now op = (now - in_start op > serverTimeoutDefault ch)"

subsection \<open>Concrete states\<close>

text \<open>
  A channel with the default options and the given peer table, and an incoming connection
  (object number 1) with the given remote name, outbound operations and \<^verbatim>\<open>reset\<close> listeners.
  \<open>example_op\<close> is an outbound operation started at time 0, \<open>example_in_op\<close> an inbound
  operation started at time 0.
\<close>

definition example_channel :: "(string \<rightharpoonup> nat list) \<Rightarrow> TChannel" where
  "example_channel ps =
     \<lparr>hostPort = ''127.0.0.1:4041'', processName = ''B[1]'',
      reqTimeoutDefault = 5000, serverTimeoutDefault = 5000,
      timeoutCheckInterval = 1000, timeoutFuzz = 100,
      peers = ps, endpoints = Map.empty, destroyed = False\<rparr>"

definition example_op :: "nat \<Rightarrow> int option \<Rightarrow> nat \<Rightarrow> TChannelClientOp" where
  "example_op opId tmo cb =
     \<lparr>frame = \<lparr>frame_id = opId, flags = 0, body = ErrorBody 0 []\<rparr>,
      callback = cb, start = 0, timeout = tmo, timedOut = False\<rparr>"

definition example_connection ::
  "string option \<Rightarrow> (nat \<times> TChannelClientOp) list \<Rightarrow> string list \<Rightarrow> TChannelConnection" where
  "example_connection rname ops listeners =
     \<lparr>conn_ref = 1, direction = In, remoteAddr = ''127.0.0.1:50000'', timer = Some 1,
      remoteName = rname, inOps = [], inPending = 0, outOps = ops, outPending = int (length ops),
      lastSentFrameId = 0, lastTimeoutTime = 0, closing = False,
      resetListeners = listeners, socketCloseListeners = length listeners\<rparr>"

definition example_in_op :: "nat \<Rightarrow> TChannelServerOp" where
  "example_in_op opId =
     \<lparr>handler = UserHandler 1,
      reqFrame = \<lparr>frame_id = opId, flags = 0,
                   body = CallRequest 1000 (replicate 24 (CHR 0x00)) [] [] ''echo'' [] []
                            \<lparr>ctype = 0, cval = 0\<rparr>\<rparr>,
      in_timedOut = False, in_timeout = Some 1000, in_start = 0,
      checksumType = 0, responseSent = False\<rparr>"

section \<open>The codec, stated\<close>

text \<open>
  \<open>reads R w v\<close>: wherever the bytes \<open>w\<close> lie in a buffer, the reader \<open>R\<close> started at their first
  byte returns the value \<open>v\<close> and the offset just after them.
\<close>

definition reads :: "(buffer \<Rightarrow> nat \<Rightarrow> 'a rd) \<Rightarrow> buffer \<Rightarrow> 'a \<Rightarrow> bool" where
  "reads R w v = (\<forall>pre rest. R (pre @ w @ rest) (length pre) = RdOk v (length pre + length w))"

text \<open>
  The checksum value a call body carries is the one its \<^verbatim>\<open>write\<close> would compute over its three
  arguments. The other bodies carry no checksum.
\<close>

fun csum_current :: "csum_alg \<Rightarrow> body \<Rightarrow> bool" where
  "csum_current alg (CallRequest ttl tracing service hs arg1 arg2 arg3 csum) =
     (cval csum = Checksum_compute alg csum arg1 arg2 arg3)"
| "csum_current alg (CallResponse code hs arg1 arg2 arg3 csum) =
     (cval csum = Checksum_compute alg csum arg1 arg2 arg3)"
| "csum_current alg b = True"

text \<open>
  A call request as a caller builds it, its checksum not yet computed, and a stand-in for
  the checksum functions (which are not among the sources): the total length of the
  arguments.
\<close>

definition example_alg :: csum_alg where
  "example_alg t a1 a2 a3 = length a1 + length a2 + length a3"

definition example_frame :: Frame where
  "example_frame =
     \<lparr>frame_id = 7, flags = 0,
      body = CallRequest 1000 (replicate 24 (CHR 0x00)) ''svc'' [(''as'', ''raw'')]
               ''echo'' ''hi'' ''yo'' \<lparr>ctype = 1, cval = 0\<rparr>\<rparr>"

text \<open>
  An init request as \<^verbatim>\<open>sendInitRequest\<close> builds it, from a channel whose process name is not
  ASCII (\<^verbatim>\<open>C3 A9\<close> is the letter e with an acute accent).
\<close>

definition example_init :: Frame where
  "example_init =
     \<lparr>frame_id = 1, flags = 0,
      body = InitRequest 2 (Some ''127.0.0.1:4040'') (Some [CHR ''c'', CHR ''a'', CHR ''f'', CHR 0xC3, CHR 0xA9])\<rparr>"

section \<open>The frame codec round trip\<close>

lemma readsI: "(\<And>pre rest. R (pre @ w @ rest) (length pre) = RdOk v (length pre + length w)) \<Longrightarrow> reads R w v"
  by (simp add: reads_def)

lemma readsD: "reads R w v \<Longrightarrow> R (pre @ w @ rest) (length pre) = RdOk v (length pre + length w)"
  by (simp add: reads_def)

lemma reads_chain:
  assumes "reads R1 w1 v1" and "reads (K v1) w2 v"
  shows "reads (\<lambda>buf off. chain (R1 buf off) (\<lambda>x off'. K x buf off')) (w1 @ w2) v"
proof (rule readsI)
  fix pre rest
  have "R1 (pre @ w1 @ (w2 @ rest)) (length pre) = RdOk v1 (length pre + length w1)"
    by (rule readsD [OF assms(1)])
  moreover have "K v1 ((pre @ w1) @ w2 @ rest) (length (pre @ w1)) = RdOk v (length (pre @ w1) + length w2)"
    by (rule readsD [OF assms(2)])
  ultimately show "chain (R1 (pre @ (w1 @ w2) @ rest) (length pre))
          (\<lambda>x off'. K x (pre @ (w1 @ w2) @ rest) off') = RdOk v (length pre + length (w1 @ w2))"
    by (simp add: chain_def add.assoc)
qed

lemma reads_return: "reads (\<lambda>buf off. RdOk v off) [] v"
  by (simp add: reads_def)

lemma reads_fixed: "length bs = n \<Longrightarrow> reads (read_fixed n) bs bs"
  by (auto simp: reads_def read_fixed_def)

lemma reads_UInt8: "n < 256 \<Longrightarrow> reads read_UInt8 (write_UInt8 n) n"
  by (auto simp: reads_def read_UInt8_def read_fixed_def write_UInt8_def chain_def)

lemma reads_UInt16BE: "n < 65536 \<Longrightarrow> reads read_UInt16BE (write_UInt16BE n) n"
proof -
  assume n: "n < 65536"
  then have "n div 256 < 256" by simp
  then have "n div 256 mod 256 * 256 + n mod 256 = n" by simp
  then show ?thesis
    by (auto simp: reads_def read_UInt16BE_def read_fixed_def write_UInt16BE_def chain_def)
qed

lemma be4_aux:
  "a = 256 * b + r1 \<Longrightarrow> b = 256 * c + r2 \<Longrightarrow> n = 256 * a + r0 \<Longrightarrow>
   c * 16777216 + (r2 * 65536 + (r1 * 256 + r0)) = (n::nat)"
  by simp

lemma be4:
  assumes "n < 4294967296"
  shows "n div 16777216 mod 256 * 16777216 + (n div 65536 mod 256 * 65536 + (n div 256 mod 256 * 256 + n mod 256)) = (n::nat)"
proof -
  have e1: "n div 65536 = n div 256 div 256" by (simp add: div_mult2_eq [symmetric])
  have e2: "n div 16777216 = n div 256 div 256 div 256" by (simp add: div_mult2_eq [symmetric])
  have small: "n div 16777216 mod 256 = n div 16777216" using assms by simp
  have "n div 256 div 256 div 256 * 16777216
        + (n div 256 div 256 mod 256 * 65536 + (n div 256 mod 256 * 256 + n mod 256)) = n"
    by (rule be4_aux [of "n div 256" "n div 256 div 256" "n div 256 mod 256"]) simp_all
  then show ?thesis by (simp only: small e1) (simp only: e2)
qed

lemma reads_UInt32BE: "n < 4294967296 \<Longrightarrow> reads read_UInt32BE (write_UInt32BE n) n"
  using be4 [of n]
  by (auto simp: reads_def read_UInt32BE_def read_fixed_def write_UInt32BE_def chain_def)

lemma reads_buf1: "length bs < 256 \<Longrightarrow> reads read_buf1 (write_buf1 bs) bs"
  unfolding read_buf1_def write_buf1_def
  by (rule reads_chain reads_UInt8 reads_fixed | simp)+

lemma reads_buf2: "legal_buf2 bs \<Longrightarrow> reads read_buf2 (write_buf2 bs) bs"
  unfolding read_buf2_def write_buf2_def legal_buf2_def
  by (rule reads_chain reads_UInt16BE reads_fixed | simp)+

lemma reads_pair1:
  "length k < 256 \<Longrightarrow> length v < 256 \<Longrightarrow> reads read_pair1 (write_buf1 k @ write_buf1 v) (k, v)"
proof -
  assume k: "length k < 256" and v: "length v < 256"
  have "reads (\<lambda>buf off. chain (read_buf1 buf off) (\<lambda>x off'. chain (read_buf1 buf off') (\<lambda>y off''. RdOk (x, y) off'')))
          (write_buf1 k @ write_buf1 v @ []) (k, v)"
    by (rule reads_chain reads_buf1 reads_return k v)+
  then show ?thesis by (simp add: read_pair1_def [abs_def])
qed

lemma reads_pair2:
  "legal_buf2 k \<Longrightarrow> legal_buf2 v \<Longrightarrow> reads read_pair2 (write_buf2 k @ write_buf2 v) (k, v)"
proof -
  assume k: "legal_buf2 k" and v: "legal_buf2 v"
  have "reads (\<lambda>buf off. chain (read_buf2 buf off) (\<lambda>x off'. chain (read_buf2 buf off') (\<lambda>y off''. RdOk (x, y) off'')))
          (write_buf2 k @ write_buf2 v @ []) (k, v)"
    by (rule reads_chain reads_buf2 reads_return k v)+
  then show ?thesis by (simp add: read_pair2_def [abs_def])
qed

lemma reads_pairs1:
  "list_all (\<lambda>(k, v). length k < 256 \<and> length v < 256) hs \<Longrightarrow>
   reads (read_pairs1 (length hs)) (concat (map (\<lambda>(k, v). write_buf1 k @ write_buf1 v) hs)) hs"
proof (induction hs)
  case Nil
  show ?case by (simp add: reads_def)
next
  case (Cons kv hs)
  obtain k v where kv: "kv = (k, v)" by (cases kv)
  from Cons.prems kv have k: "length k < 256" and v: "length v < 256"
    and rest: "list_all (\<lambda>(k, v). length k < 256 \<and> length v < 256) hs"
    by simp_all
  note ih = Cons.IH [OF rest]
  have "reads (\<lambda>buf off. chain (read_pair1 buf off)
                 (\<lambda>x off'. chain (read_pairs1 (length hs) buf off') (\<lambda>kvs off''. RdOk (x # kvs) off'')))
          ((write_buf1 k @ write_buf1 v) @ concat (map (\<lambda>(k, v). write_buf1 k @ write_buf1 v) hs) @ [])
          ((k, v) # hs)"
    by (rule reads_chain reads_pair1 reads_return ih k v)+
  then show ?case by (simp add: kv reads_def)
qed

lemma reads_header: "legal_headers hs \<Longrightarrow> reads header_read (header_write hs) hs"
proof -
  assume l: "legal_headers hs"
  then have n: "length hs < 256" and all: "list_all (\<lambda>(k, v). length k < 256 \<and> length v < 256) hs"
    by (simp_all add: legal_headers_def)
  note ps = reads_pairs1 [OF all]
  have "reads (\<lambda>buf off. chain (read_UInt8 buf off) (\<lambda>nh off'. read_pairs1 nh buf off'))
          (write_UInt8 (length hs) @ concat (map (\<lambda>(k, v). write_buf1 k @ write_buf1 v) hs)) hs"
    by (rule reads_chain reads_UInt8 ps n)+
  then show ?thesis by (simp add: header_read_def [abs_def] header_write_def)
qed

lemma reads_Checksum:
  assumes "ctype c \<in> {0, 1, 2}" and "cval c < 4294967296" and "ctype c = 0 \<Longrightarrow> cval c = 0"
  shows "reads Checksum_read (Checksum_write c) c"
proof (cases "ctype c = 0")
  case True
  with assms(3) have c: "\<lparr>ctype = 0, cval = 0\<rparr> = c" by (cases c) simp
  have "reads (\<lambda>buf off. chain (read_UInt8 buf off) (\<lambda>t off'.
                 if t = 0 then RdOk \<lparr>ctype = t, cval = 0\<rparr> off'
                 else if t = 1 \<or> t = 2 then
                   chain (read_UInt32BE buf off') (\<lambda>v off''. RdOk \<lparr>ctype = t, cval = v\<rparr> off'')
                 else RdErr (InvalidChecksumTypeError t) off'))
          (write_UInt8 (ctype c) @ []) c"
    apply (rule reads_chain)
     apply (rule reads_UInt8)
     apply (simp add: True)
    apply (simp add: True c reads_return)
    done
  then show ?thesis
    by (simp add: Checksum_read_def [abs_def] Checksum_write_def True)
next
  case False
  with assms(1) have t: "ctype c = 1 \<or> ctype c = 2" by auto
  then have t8: "ctype c < 256" by auto
  have c: "\<lparr>ctype = ctype c, cval = cval c\<rparr> = c" by (cases c) simp
  have inner: "reads (\<lambda>buf off'. chain (read_UInt32BE buf off') (\<lambda>v off''. RdOk \<lparr>ctype = ctype c, cval = v\<rparr> off''))
          (write_UInt32BE (cval c) @ []) c"
    apply (rule reads_chain)
     apply (rule reads_UInt32BE)
     apply (rule assms(2))
    apply (simp add: c reads_return)
    done
  have "reads (\<lambda>buf off. chain (read_UInt8 buf off) (\<lambda>t off'.
                 if t = 0 then RdOk \<lparr>ctype = t, cval = 0\<rparr> off'
                 else if t = 1 \<or> t = 2 then
                   chain (read_UInt32BE buf off') (\<lambda>v off''. RdOk \<lparr>ctype = t, cval = v\<rparr> off'')
                 else RdErr (InvalidChecksumTypeError t) off'))
          (write_UInt8 (ctype c) @ write_UInt32BE (cval c) @ []) c"
    apply (rule reads_chain)
     apply (rule reads_UInt8)
     apply (rule t8)
    using t inner apply (simp add: False)
    done
  then show ?thesis
    by (simp add: Checksum_read_def [abs_def] Checksum_write_def False)
qed

lemma reads_Checksum_update:
  "ctype c \<in> {0, 1, 2} \<Longrightarrow>
   reads Checksum_read (Checksum_write (Checksum_update alg c a1 a2 a3)) (Checksum_update alg c a1 a2 a3)"
  by (rule reads_Checksum) (simp_all add: Checksum_update_def Checksum_compute_def)

lemma Checksum_verify_update:
  "Checksum_verify alg (Checksum_update alg c a1 a2 a3) a1 a2 a3 = None"
  by (simp add: Checksum_verify_def Checksum_update_def Checksum_compute_def)

lemma toString_1: "byte_in 0x00 0x7F b \<Longrightarrow> Buffer_toString (b # bs) = b # Buffer_toString bs"
  by simp

lemma toString_2:
  "\<not> byte_in 0x00 0x7F b \<Longrightarrow> byte_in 0xC2 0xDF b \<Longrightarrow> byte_in 0x80 0xBF c \<Longrightarrow>
   Buffer_toString (b # c # cs) = b # c # Buffer_toString cs"
  by simp

lemma toString_3:
  "\<not> byte_in 0x00 0x7F b \<Longrightarrow> \<not> byte_in 0xC2 0xDF b \<Longrightarrow> byte_in 0xE0 0xEF b \<Longrightarrow>
   byte_in (if b = CHR 0xE0 then 0xA0 else 0x80) (if b = CHR 0xED then 0x9F else 0xBF) c \<Longrightarrow>
   byte_in 0x80 0xBF d \<Longrightarrow>
   Buffer_toString (b # c # d # ds) = b # c # d # Buffer_toString ds"
  by (simp del: if_split cong: if_cong)

lemma toString_4:
  "\<not> byte_in 0x00 0x7F b \<Longrightarrow> \<not> byte_in 0xC2 0xDF b \<Longrightarrow> \<not> byte_in 0xE0 0xEF b \<Longrightarrow>
   byte_in 0xF0 0xF4 b \<Longrightarrow>
   byte_in (if b = CHR 0xF0 then 0x90 else 0x80) (if b = CHR 0xF4 then 0x8F else 0xBF) c \<Longrightarrow>
   byte_in 0x80 0xBF d \<Longrightarrow> byte_in 0x80 0xBF e \<Longrightarrow>
   Buffer_toString (b # c # d # e # es) = b # c # d # e # Buffer_toString es"
  by (simp del: if_split cong: if_cong)


lemma wellformed_2:
  assumes "utf8_wellformed (b # bs)" and "\<not> byte_in 0x00 0x7F b" and "byte_in 0xC2 0xDF b"
  obtains c cs where "bs = c # cs" and "byte_in 0x80 0xBF c" and "utf8_wellformed cs"
  using assms by (cases bs) simp_all

lemma wellformed_3:
  assumes "utf8_wellformed (b # bs)" and "\<not> byte_in 0x00 0x7F b" and "\<not> byte_in 0xC2 0xDF b"
    and "byte_in 0xE0 0xEF b"
  obtains c d ds where "bs = c # d # ds"
    and "byte_in (if b = CHR 0xE0 then 0xA0 else 0x80) (if b = CHR 0xED then 0x9F else 0xBF) c"
    and "byte_in 0x80 0xBF d" and "utf8_wellformed ds"
proof (cases bs)
  case Nil
  with assms show ?thesis by simp
next
  case (Cons c cs)
  show ?thesis
  proof (cases cs)
    case Nil
    with Cons assms show ?thesis by simp
  next
    case (Cons d ds)
    with \<open>bs = c # cs\<close> assms that show ?thesis by (simp del: if_split cong: if_cong)
  qed
qed

lemma wellformed_4:
  assumes "utf8_wellformed (b # bs)" and "\<not> byte_in 0x00 0x7F b" and "\<not> byte_in 0xC2 0xDF b"
    and "\<not> byte_in 0xE0 0xEF b"
  obtains c d e es where "byte_in 0xF0 0xF4 b" and "bs = c # d # e # es"
    and "byte_in (if b = CHR 0xF0 then 0x90 else 0x80) (if b = CHR 0xF4 then 0x8F else 0xBF) c"
    and "byte_in 0x80 0xBF d" and "byte_in 0x80 0xBF e" and "utf8_wellformed es"
proof -
  from assms have f: "byte_in 0xF0 0xF4 b" by (simp split: if_splits)
  show ?thesis
  proof (cases bs)
    case Nil
    with assms f show ?thesis by simp
  next
    case c: (Cons c cs)
    show ?thesis
    proof (cases cs)
      case Nil
      with c assms f show ?thesis by simp
    next
      case d: (Cons d ds)
      show ?thesis
      proof (cases ds)
        case Nil
        with c d assms f show ?thesis by simp
      next
        case (Cons e es)
        with c d assms f that show ?thesis by (simp del: if_split cong: if_cong)
      qed
    qed
  qed
qed

lemma Buffer_toString_wellformed: "utf8_wellformed s \<Longrightarrow> Buffer_toString s = s"
proof (induction "length s" arbitrary: s rule: less_induct)
  case less
  show ?case
  proof (cases s)
    case Nil
    then show ?thesis by simp
  next
    case (Cons b bs)
    note wf = less.prems [unfolded Cons]
    show ?thesis
    proof (cases "byte_in 0x00 0x7F b")
      case True
      with wf have "utf8_wellformed bs" by simp
      then have "Buffer_toString bs = bs" by (intro less.hyps) (simp add: Cons)
      then show ?thesis unfolding Cons by (simp only: toString_1 [OF True])
    next
      case n1: False
      show ?thesis
      proof (cases "byte_in 0xC2 0xDF b")
        case True
        from wf n1 True obtain c cs where bs: "bs = c # cs" and c: "byte_in 0x80 0xBF c"
          and r: "utf8_wellformed cs" by (rule wellformed_2)
        from r have "Buffer_toString cs = cs" by (intro less.hyps) (simp add: Cons bs)
        then show ?thesis unfolding Cons bs by (simp only: toString_2 [OF n1 True c])
      next
        case n2: False
        show ?thesis
        proof (cases "byte_in 0xE0 0xEF b")
          case True
          from wf n1 n2 True obtain c d ds where bs: "bs = c # d # ds"
            and c: "byte_in (if b = CHR 0xE0 then 0xA0 else 0x80) (if b = CHR 0xED then 0x9F else 0xBF) c"
            and d: "byte_in 0x80 0xBF d" and r: "utf8_wellformed ds" by (rule wellformed_3)
          from r have "Buffer_toString ds = ds" by (intro less.hyps) (simp add: Cons bs)
          then show ?thesis unfolding Cons bs by (simp only: toString_3 [OF n1 n2 True c d])
        next
          case n3: False
          from wf n1 n2 n3 obtain c d e es where f: "byte_in 0xF0 0xF4 b" and bs: "bs = c # d # e # es"
            and c: "byte_in (if b = CHR 0xF0 then 0x90 else 0x80) (if b = CHR 0xF4 then 0x8F else 0xBF) c"
            and d: "byte_in 0x80 0xBF d" and e: "byte_in 0x80 0xBF e" and r: "utf8_wellformed es"
            by (rule wellformed_4)
          from r have "Buffer_toString es = es" by (intro less.hyps) (simp add: Cons bs)
          then show ?thesis unfolding Cons bs by (simp only: toString_4 [OF n1 n2 n3 f c d e])
        qed
      qed
    qed
  qed
qed

text \<open>
  The decoder at bytes that are not well-formed: a byte that begins nothing, an overlong
  form, a surrogate, a sequence cut short by the end of the buffer or by an ASCII byte, a
  code point above U+10FFFF. And at two well-formed sequences, of two and of four bytes.
\<close>

lemma Buffer_toString_examples:
  "Buffer_toString [CHR 0xFF] = replacement"
  "Buffer_toString [CHR 0xC0, CHR 0x80] = replacement @ replacement"
  "Buffer_toString [CHR 0xE0, CHR 0x80, CHR 0x80] = replacement @ replacement @ replacement"
  "Buffer_toString [CHR 0xED, CHR 0xA0, CHR 0x80] = replacement @ replacement @ replacement"
  "Buffer_toString [CHR 0xE2, CHR 0x82] = replacement"
  "Buffer_toString [CHR 0xE2, CHR 0x82, CHR 0x41] = replacement @ [CHR 0x41]"
  "Buffer_toString [CHR 0xF4, CHR 0x90, CHR 0x80, CHR 0x80] = replacement @ replacement @ replacement @ replacement"
  "Buffer_toString [CHR 0xC3, CHR 0xA9] = [CHR 0xC3, CHR 0xA9]"
  "Buffer_toString [CHR 0xF0, CHR 0x9F, CHR 0x98, CHR 0x80] = [CHR 0xF0, CHR 0x9F, CHR 0x98, CHR 0x80]"
  by (simp_all add: byte_in_def)

lemma toString_host_port: "Buffer_toString ''host_port'' = ''host_port''"
  by (rule Buffer_toString_wellformed) (simp add: byte_in_def)

lemma toString_process_name: "Buffer_toString ''process_name'' = ''process_name''"
  by (rule Buffer_toString_wellformed) (simp add: byte_in_def)

lemma legal_host_port: "legal_buf2 ''host_port''" and legal_process_name: "legal_buf2 ''process_name''"
  by (simp_all add: legal_buf2_def)

lemma reads_Init_pairs:
  assumes v: "ver0 < 65536" and k1: "legal_buf2 k1" and v1: "legal_buf2 v1"
    and k2: "legal_buf2 k2" and v2: "legal_buf2 v2"
    and ip: "init_pairs [(k1, v1), (k2, v2)] None None = Inr (h, p)"
  shows "reads (Init_read T)
           (write_UInt16BE ver0 @ write_buf2 k1 @ write_buf2 v1 @ write_buf2 k2 @ write_buf2 v2)
           (if T = InitResponseT then InitResponse ver0 h p else InitRequest ver0 h p)"
proof -
  have "reads (\<lambda>buf offset.
     chain (read_UInt16BE buf offset) (\<lambda>ver0 off1.
     chain (read_pair2 buf off1) (\<lambda>p1 off2.
     chain (read_pair2 buf off2) (\<lambda>p2 off3.
       case init_pairs [p1, p2] None None of
         Inl err \<Rightarrow> RdErr err off3
       | Inr (hp', pn') \<Rightarrow>
           RdOk (if T = InitResponseT then InitResponse ver0 hp' pn'
                 else InitRequest ver0 hp' pn') off3))))
     (write_UInt16BE ver0 @ (write_buf2 k1 @ write_buf2 v1) @ (write_buf2 k2 @ write_buf2 v2) @ [])
     (if T = InitResponseT then InitResponse ver0 h p else InitRequest ver0 h p)"
    apply (rule reads_chain)
     apply (rule reads_UInt16BE [OF v])
    apply (rule reads_chain)
     apply (rule reads_pair2 [OF k1 v1])
    apply (rule reads_chain)
     apply (rule reads_pair2 [OF k2 v2])
    apply (simp only: ip sum.case prod.case)
    apply (rule reads_return)
    done
  then show ?thesis by (simp add: Init_read_def [abs_def] del: init_pairs.simps)
qed

text \<open>
  What \<^verbatim>\<open>InitRequest.read\<close> gives for the bytes that \<^verbatim>\<open>write\<close> produced: each name as \<^verbatim>\<open>String\<close> decodes
  its bytes. A name that is a string comes back as it was.
\<close>

lemma init_pairs_written:
  "init_pairs [(''host_port'', hp), (''process_name'', pn)] None None
   = Inr (Some (Buffer_toString hp), Some (Buffer_toString pn))"
  by (simp add: Let_def toString_host_port toString_process_name del: Buffer_toString.simps)

lemma reads_Init_written:
  assumes v: "ver0 < 65536" and h: "legal_buf2 hp" and p: "legal_buf2 pn"
  shows "reads (Init_read T)
           (write_UInt16BE ver0 @ write_buf2 ''host_port'' @ write_buf2 hp
              @ write_buf2 ''process_name'' @ write_buf2 pn)
           (if T = InitResponseT then InitResponse ver0 (Some (Buffer_toString hp)) (Some (Buffer_toString pn))
            else InitRequest ver0 (Some (Buffer_toString hp)) (Some (Buffer_toString pn)))"
  by (rule reads_Init_pairs [OF v legal_host_port h legal_process_name p init_pairs_written])

lemma reads_Init:
  assumes v: "ver0 < 65536" and h: "legal_str2 (Some hp)" and p: "legal_str2 (Some pn)"
  shows "reads (Init_read T)
           (write_UInt16BE ver0 @ write_buf2 ''host_port'' @ write_buf2 hp
              @ write_buf2 ''process_name'' @ write_buf2 pn)
           (if T = InitResponseT then InitResponse ver0 (Some hp) (Some pn)
            else InitRequest ver0 (Some hp) (Some pn))"
proof -
  from h p have lh: "legal_buf2 hp" and lp: "legal_buf2 pn"
    and wh: "Buffer_toString hp = hp" and wp: "Buffer_toString pn = pn"
    by (simp_all add: legal_buf2_def Buffer_toString_wellformed del: Buffer_toString.simps)
  from reads_Init_written [OF v lh lp, of T] show ?thesis
    by (simp only: wh wp)
qed

text \<open>
  Outside the legal value space the bytes written are not read back. Bytes that are not the
  UTF-8 form of a string (a name given as a buffer holding the byte \<^verbatim>\<open>FF\<close>) come back as the
  replacement character. And two pairs with the same key, the first with an empty value,
  are read without an error as a body with one name \<^verbatim>\<open>undefined\<close>, which cannot be written.
\<close>

lemma Init_read_ill_formed_name:
  "Init_read InitRequestT
     (write_UInt16BE 2 @ write_buf2 ''host_port'' @ write_buf2 [CHR 0xFF]
        @ write_buf2 ''process_name'' @ write_buf2 ''p'') 0
   = RdOk (InitRequest 2 (Some [CHR 0xEF, CHR 0xBF, CHR 0xBD]) (Some ''p'')) 33"
proof -
  have "reads (Init_read InitRequestT)
           (write_UInt16BE 2 @ write_buf2 ''host_port'' @ write_buf2 [CHR 0xFF]
              @ write_buf2 ''process_name'' @ write_buf2 ''p'')
           (if InitRequestT = InitResponseT
            then InitResponse 2 (Some (Buffer_toString [CHR 0xFF])) (Some (Buffer_toString ''p''))
            else InitRequest 2 (Some (Buffer_toString [CHR 0xFF])) (Some (Buffer_toString ''p'')))"
    by (rule reads_Init_written) (simp_all add: legal_buf2_def)
  then have r: "reads (Init_read InitRequestT)
           (write_UInt16BE 2 @ write_buf2 ''host_port'' @ write_buf2 [CHR 0xFF]
              @ write_buf2 ''process_name'' @ write_buf2 ''p'')
           (InitRequest 2 (Some [CHR 0xEF, CHR 0xBF, CHR 0xBD]) (Some ''p''))"
    by (simp add: byte_in_def replacement_def)
  from readsD [OF r, of "[]" "[]"] show ?thesis
    by (simp add: write_UInt16BE_def write_buf2_def)
qed

lemma Init_read_undefined_name:
  "Init_read InitRequestT
     (write_UInt16BE 2 @ write_buf2 ''host_port'' @ write_buf2 []
        @ write_buf2 ''host_port'' @ write_buf2 ''h'') 0
   = RdOk (InitRequest 2 (Some ''h'') None) 29
   \<and> body_write alg (InitRequest 2 (Some ''h'') None) = Inl (InvalidArgumentError ''init processName'')"
proof -
  have ip: "init_pairs [(''host_port'', []), (''host_port'', ''h'')] None None = Inr (Some ''h'', None)"
    by (simp add: Let_def toString_host_port byte_in_def del: Buffer_toString.simps)
      (simp add: byte_in_def)
  have r: "reads (Init_read InitRequestT)
           (write_UInt16BE 2 @ write_buf2 ''host_port'' @ write_buf2 []
              @ write_buf2 ''host_port'' @ write_buf2 ''h'')
           (if InitRequestT = InitResponseT then InitResponse 2 (Some ''h'') None
            else InitRequest 2 (Some ''h'') None)"
    by (rule reads_Init_pairs [OF _ _ _ _ _ ip]) (simp_all add: legal_buf2_def)
  from readsD [OF r, of "[]" "[]"] show ?thesis
    by (simp add: write_UInt16BE_def write_buf2_def Init_write_def write_buf2_arg_def)
qed

lemma reads_CallRequest:
  assumes "ttl < 4294967296" and "length tracing = 24" and "legal_buf2 service" and "legal_headers hs"
    and "legal_buf2 arg1" and "legal_buf2 arg2" and "legal_buf2 arg3" and "ctype csum \<in> {0, 1, 2}"
  shows "reads (CallRequest_read alg)
           (fst (projr (body_write alg (CallRequest ttl tracing service hs arg1 arg2 arg3 csum))))
           (snd (projr (body_write alg (CallRequest ttl tracing service hs arg1 arg2 arg3 csum))))"
proof -
  define c where "c = Checksum_update alg csum arg1 arg2 arg3"
  have vf: "Checksum_verify alg c arg1 arg2 arg3 = None"
    by (simp add: c_def Checksum_verify_update)
  have rc: "reads Checksum_read (Checksum_write c) c"
    unfolding c_def by (rule reads_Checksum_update [OF assms(8)])
  have "reads (\<lambda>buf offset.
     chain (read_UInt32BE buf offset) (\<lambda>ttl off1.
     chain (read_fixed 24 buf off1) (\<lambda>tracing off2.
     chain (read_buf2 buf off2) (\<lambda>service off3.
     chain (header_read buf off3) (\<lambda>hs off4.
     chain (read_buf2 buf off4) (\<lambda>arg1 off5.
     chain (read_buf2 buf off5) (\<lambda>arg2 off6.
     chain (read_buf2 buf off6) (\<lambda>arg3 off7.
     chain (Checksum_read buf off7) (\<lambda>csum off8.
       case Checksum_verify alg csum arg1 arg2 arg3 of
         Some err \<Rightarrow> RdErr err off8
       | None \<Rightarrow> RdOk (CallRequest ttl tracing service hs arg1 arg2 arg3 csum) off8)))))))))
     (write_UInt32BE ttl @ tracing @ write_buf2 service @ header_write hs
       @ write_buf2 arg1 @ write_buf2 arg2 @ write_buf2 arg3 @ Checksum_write c @ [])
     (CallRequest ttl tracing service hs arg1 arg2 arg3 c)"
    apply (rule reads_chain)
     apply (rule reads_UInt32BE [OF assms(1)])
    apply (rule reads_chain)
     apply (rule reads_fixed [OF assms(2)])
    apply (rule reads_chain)
     apply (rule reads_buf2 [OF assms(3)])
    apply (rule reads_chain)
     apply (rule reads_header [OF assms(4)])
    apply (rule reads_chain)
     apply (rule reads_buf2 [OF assms(5)])
    apply (rule reads_chain)
     apply (rule reads_buf2 [OF assms(6)])
    apply (rule reads_chain)
     apply (rule reads_buf2 [OF assms(7)])
    apply (rule reads_chain)
     apply (rule rc)
    apply (simp add: vf reads_return)
    done
  then show ?thesis
    by (simp add: CallRequest_read_def [abs_def] write_fixed_def c_def Let_def)
qed

lemma reads_CallResponse:
  assumes "code < 256" and "legal_headers hs"
    and "legal_buf2 arg1" and "legal_buf2 arg2" and "legal_buf2 arg3" and "ctype csum \<in> {0, 1, 2}"
  shows "reads (CallResponse_read alg)
           (fst (projr (body_write alg (CallResponse code hs arg1 arg2 arg3 csum))))
           (snd (projr (body_write alg (CallResponse code hs arg1 arg2 arg3 csum))))"
proof -
  define c where "c = Checksum_update alg csum arg1 arg2 arg3"
  have vf: "Checksum_verify alg c arg1 arg2 arg3 = None"
    by (simp add: c_def Checksum_verify_update)
  have rc: "reads Checksum_read (Checksum_write c) c"
    unfolding c_def by (rule reads_Checksum_update [OF assms(6)])
  have "reads (\<lambda>buf offset.
     chain (read_UInt8 buf offset) (\<lambda>code off1.
     chain (header_read buf off1) (\<lambda>hs off2.
     chain (read_buf2 buf off2) (\<lambda>arg1 off3.
     chain (read_buf2 buf off3) (\<lambda>arg2 off4.
     chain (read_buf2 buf off4) (\<lambda>arg3 off5.
     chain (Checksum_read buf off5) (\<lambda>csum off6.
       case Checksum_verify alg csum arg1 arg2 arg3 of
         Some err \<Rightarrow> RdErr err off6
       | None \<Rightarrow> RdOk (CallResponse code hs arg1 arg2 arg3 csum) off6)))))))
     (write_UInt8 code @ header_write hs
       @ write_buf2 arg1 @ write_buf2 arg2 @ write_buf2 arg3 @ Checksum_write c @ [])
     (CallResponse code hs arg1 arg2 arg3 c)"
    apply (rule reads_chain)
     apply (rule reads_UInt8 [OF assms(1)])
    apply (rule reads_chain)
     apply (rule reads_header [OF assms(2)])
    apply (rule reads_chain)
     apply (rule reads_buf2 [OF assms(3)])
    apply (rule reads_chain)
     apply (rule reads_buf2 [OF assms(4)])
    apply (rule reads_chain)
     apply (rule reads_buf2 [OF assms(5)])
    apply (rule reads_chain)
     apply (rule rc)
    apply (simp add: vf reads_return)
    done
  then show ?thesis
    by (simp add: CallResponse_read_def [abs_def] c_def Let_def)
qed

lemma reads_Error:
  assumes "code < 256" and "legal_buf2 message"
  shows "reads Error_read (write_UInt8 code @ write_buf2 message) (ErrorBody code message)"
proof -
  have "reads (\<lambda>buf offset.
     chain (read_UInt8 buf offset) (\<lambda>code off1.
     chain (read_buf2 buf off1) (\<lambda>message off2. RdOk (ErrorBody code message) off2)))
     (write_UInt8 code @ write_buf2 message @ []) (ErrorBody code message)"
    apply (rule reads_chain)
     apply (rule reads_UInt8 [OF assms(1)])
    apply (rule reads_chain)
     apply (rule reads_buf2 [OF assms(2)])
    apply (rule reads_return)
    done
  then show ?thesis by (simp add: Error_read_def [abs_def])
qed

lemma body_write_legal: "legal_body b \<Longrightarrow> body_write alg b = Inr (projr (body_write alg b))"
proof (cases b)
  case (InitRequest ver0 hp pn)
  assume "legal_body b"
  with InitRequest show ?thesis by (cases hp; cases pn) (simp_all add: Init_write_def write_buf2_arg_def)
next
  case (InitResponse ver0 hp pn)
  assume "legal_body b"
  with InitResponse show ?thesis by (cases hp; cases pn) (simp_all add: Init_write_def write_buf2_arg_def)
qed (simp_all add: Let_def)

lemma reads_body:
  "legal_body b \<Longrightarrow>
   reads (BodyType_read alg (body_class b)) (fst (projr (body_write alg b))) (snd (projr (body_write alg b)))"
proof (cases b)
  case (InitRequest ver0 hp pn)
  assume l: "legal_body b"
  with InitRequest obtain h n where hn: "hp = Some h" "pn = Some n"
    by (cases hp; cases pn) simp_all
  with l InitRequest have "reads (Init_read InitRequestT)
     (write_UInt16BE ver0 @ write_buf2 ''host_port'' @ write_buf2 h @ write_buf2 ''process_name'' @ write_buf2 n)
     (if InitRequestT = InitResponseT then InitResponse ver0 (Some h) (Some n)
      else InitRequest ver0 (Some h) (Some n))"
    by (intro reads_Init) simp_all
  with InitRequest hn show ?thesis by (simp add: BodyType_read.simps [abs_def] Init_write_def write_buf2_arg_def)
next
  case (InitResponse ver0 hp pn)
  assume l: "legal_body b"
  with InitResponse obtain h n where hn: "hp = Some h" "pn = Some n"
    by (cases hp; cases pn) simp_all
  with l InitResponse have "reads (Init_read InitResponseT)
     (write_UInt16BE ver0 @ write_buf2 ''host_port'' @ write_buf2 h @ write_buf2 ''process_name'' @ write_buf2 n)
     (if InitResponseT = InitResponseT then InitResponse ver0 (Some h) (Some n)
      else InitRequest ver0 (Some h) (Some n))"
    by (intro reads_Init) simp_all
  with InitResponse hn show ?thesis by (simp add: BodyType_read.simps [abs_def] Init_write_def write_buf2_arg_def)
next
  case (CallRequest ttl tracing service hs arg1 arg2 arg3 csum)
  assume "legal_body b"
  with CallRequest have "reads (CallRequest_read alg)
           (fst (projr (body_write alg (CallRequest ttl tracing service hs arg1 arg2 arg3 csum))))
           (snd (projr (body_write alg (CallRequest ttl tracing service hs arg1 arg2 arg3 csum))))"
    by (intro reads_CallRequest) simp_all
  with CallRequest show ?thesis by (simp add: BodyType_read.simps [abs_def])
next
  case (CallResponse code hs arg1 arg2 arg3 csum)
  assume "legal_body b"
  with CallResponse have "reads (CallResponse_read alg)
           (fst (projr (body_write alg (CallResponse code hs arg1 arg2 arg3 csum))))
           (snd (projr (body_write alg (CallResponse code hs arg1 arg2 arg3 csum))))"
    by (intro reads_CallResponse) simp_all
  with CallResponse show ?thesis by (simp add: BodyType_read.simps [abs_def])
next
  case (ErrorBody code message)
  assume "legal_body b"
  with ErrorBody have "reads Error_read (write_UInt8 code @ write_buf2 message) (ErrorBody code message)"
    by (intro reads_Error) simp_all
  with ErrorBody show ?thesis by (simp add: BodyType_read.simps [abs_def])
qed

lemma length_write_UInt: "length (write_UInt8 n) = 1" "length (write_UInt16BE n) = 2" "length (write_UInt32BE n) = 4"
  by (simp_all add: write_UInt8_def write_UInt16BE_def write_UInt32BE_def)

lemma length_write_buf2: "legal_buf2 bs \<Longrightarrow> length (write_buf2 bs) \<le> 65537"
  by (simp add: write_buf2_def legal_buf2_def length_write_UInt)

lemma length_pairs1:
  "list_all (\<lambda>(k, v). length k < 256 \<and> length v < 256) hs \<Longrightarrow>
   length (concat (map (\<lambda>(k, v). write_buf1 k @ write_buf1 v) hs)) \<le> 512 * length hs"
  by (induction hs) (auto simp: write_buf1_def length_write_UInt)

lemma length_header_write: "legal_headers hs \<Longrightarrow> length (header_write hs) \<le> 130561"
proof -
  assume l: "legal_headers hs"
  then have "length (concat (map (\<lambda>(k, v). write_buf1 k @ write_buf1 v) hs)) \<le> 512 * length hs"
    by (intro length_pairs1) (simp add: legal_headers_def)
  moreover from l have "length hs < 256" by (simp add: legal_headers_def)
  ultimately show ?thesis by (simp add: header_write_def length_write_UInt)
qed

lemma length_Checksum_write: "length (Checksum_write c) \<le> 5"
  by (simp add: Checksum_write_def length_write_UInt)

lemma length_body_write: "legal_body b \<Longrightarrow> length (fst (projr (body_write alg b))) \<le> 1000000"
proof (cases b)
  case (InitRequest ver0 hp pn)
  assume l: "legal_body b"
  with InitRequest obtain h n where hn: "hp = Some h" "pn = Some n"
    by (cases hp; cases pn) simp_all
  with l InitRequest have "length (write_buf2 h) \<le> 65537" "length (write_buf2 n) \<le> 65537"
    by (simp_all add: length_write_buf2 legal_buf2_def)
  with InitRequest hn show ?thesis
    by (simp add: Init_write_def write_buf2_arg_def length_write_UInt write_buf2_def [of "''host_port''"] write_buf2_def [of "''process_name''"])
next
  case (InitResponse ver0 hp pn)
  assume l: "legal_body b"
  with InitResponse obtain h n where hn: "hp = Some h" "pn = Some n"
    by (cases hp; cases pn) simp_all
  with l InitResponse have "length (write_buf2 h) \<le> 65537" "length (write_buf2 n) \<le> 65537"
    by (simp_all add: length_write_buf2 legal_buf2_def)
  with InitResponse hn show ?thesis
    by (simp add: Init_write_def write_buf2_arg_def length_write_UInt write_buf2_def [of "''host_port''"] write_buf2_def [of "''process_name''"])
next
  case (CallRequest ttl tracing service hs arg1 arg2 arg3 csum)
  assume "legal_body b"
  with CallRequest have "length tracing = 24" "length (write_buf2 service) \<le> 65537"
    "length (header_write hs) \<le> 130561"
    "length (write_buf2 arg1) \<le> 65537" "length (write_buf2 arg2) \<le> 65537" "length (write_buf2 arg3) \<le> 65537"
    by (simp_all add: length_write_buf2 length_header_write)
  moreover have "length (Checksum_write (Checksum_update alg csum arg1 arg2 arg3)) \<le> 5"
    by (rule length_Checksum_write)
  ultimately show ?thesis using CallRequest
    by (simp add: Let_def length_write_UInt write_fixed_def)
next
  case (CallResponse code hs arg1 arg2 arg3 csum)
  assume "legal_body b"
  with CallResponse have
    "length (header_write hs) \<le> 130561"
    "length (write_buf2 arg1) \<le> 65537" "length (write_buf2 arg2) \<le> 65537" "length (write_buf2 arg3) \<le> 65537"
    by (simp_all add: length_write_buf2 length_header_write)
  moreover have "length (Checksum_write (Checksum_update alg csum arg1 arg2 arg3)) \<le> 5"
    by (rule length_Checksum_write)
  ultimately show ?thesis using CallResponse
    by (simp add: Let_def length_write_UInt)
next
  case (ErrorBody code message)
  assume "legal_body b"
  with ErrorBody have "length (write_buf2 message) \<le> 65537"
    by (simp add: length_write_buf2)
  with ErrorBody show ?thesis by (simp add: length_write_UInt)
qed

lemma Frame_Types_TypeCode: "Frame_Types (TypeCode T) = Some T"
  by (cases T) (simp_all add: Frame_Types_def)

lemma TypeCode_byte: "TypeCode T < 256"
  by (cases T) simp_all

lemma reads_frame_body:
  assumes rb: "reads (BodyType_read alg T) w b" and len: "len = 16 + length w"
  shows "reads (\<lambda>buf offset.
           case Frame_Types (TypeCode T) of
             None \<Rightarrow> RdErr (InvalidFrameTypeError (TypeCode T)) offset
           | Some BodyType \<Rightarrow>
               (let bodyLength = int len - 16 in
                case want bodyLength buf offset of
                  Some err \<Rightarrow> RdErr err offset
                | None \<Rightarrow>
                    (let endOff = int offset + bodyLength in
                     chain (BodyType_read alg BodyType buf offset) (\<lambda>b offset'.
                       if int offset' < endOff
                       then RdErr (ExtraFrameDataError len (nat (endOff - int offset'))) offset'
                       else RdOk \<lparr>frame_id = i, flags = fl, body = b\<rparr> offset'))))
           w \<lparr>frame_id = i, flags = fl, body = b\<rparr>"
proof (rule readsI)
  fix pre rest :: buffer
  have "BodyType_read alg T (pre @ w @ rest) (length pre) = RdOk b (length pre + length w)"
    by (rule readsD [OF rb])
  then show "(case Frame_Types (TypeCode T) of
             None \<Rightarrow> RdErr (InvalidFrameTypeError (TypeCode T)) (length pre)
           | Some BodyType \<Rightarrow>
               (let bodyLength = int len - 16 in
                case want bodyLength (pre @ w @ rest) (length pre) of
                  Some err \<Rightarrow> RdErr err (length pre)
                | None \<Rightarrow>
                    (let endOff = int (length pre) + bodyLength in
                     chain (BodyType_read alg BodyType (pre @ w @ rest) (length pre)) (\<lambda>b offset'.
                       if int offset' < endOff
                       then RdErr (ExtraFrameDataError len (nat (endOff - int offset'))) offset'
                       else RdOk \<lparr>frame_id = i, flags = fl, body = b\<rparr> offset'))))
          = RdOk \<lparr>frame_id = i, flags = fl, body = b\<rparr> (length pre + length w)"
    by (simp add: Frame_Types_TypeCode len want_def chain_def Let_def)
qed

lemma Frame_write_legal:
  assumes "legal_frame f"
  shows "Frame_write alg f
         = Inr (write_UInt32BE (16 + length (fst (projr (body_write alg (body f)))))
                @ write_UInt32BE (frame_id f)
                @ write_UInt8 (body_type_code (body f))
                @ write_UInt8 (flags f)
                @ write_fill 0 6
                @ fst (projr (body_write alg (body f))),
                f\<lparr>body := snd (projr (body_write alg (body f)))\<rparr>)"
proof -
  from assms have "legal_body (body f)" by (simp add: legal_frame_def)
  then have "body_write alg (body f) = Inr (projr (body_write alg (body f)))"
    by (rule body_write_legal)
  then obtain w b' where wb: "body_write alg (body f) = Inr (w, b')"
    by (cases "projr (body_write alg (body f))") simp
  then show ?thesis by (simp add: Frame_write_def Let_def)
qed

lemma reads_Frame:
  assumes l: "legal_frame f"
  shows "reads (Frame_read alg) (fst (projr (Frame_write alg f))) (snd (projr (Frame_write alg f)))"
proof -
  define w where "w = fst (projr (body_write alg (body f)))"
  define b where "b = snd (projr (body_write alg (body f)))"
  from l have lb: "legal_body (body f)" and i: "frame_id f < 4294967296" and fl: "flags f < 256"
    by (simp_all add: legal_frame_def)
  have rb: "reads (BodyType_read alg (body_class (body f))) w b"
    unfolding w_def b_def by (rule reads_body [OF lb])
  have "length w \<le> 1000000"
    unfolding w_def by (rule length_body_write [OF lb])
  then have n: "16 + length w < 4294967296" by simp
  have six: "length (write_fill 0 6) = 6" by (simp add: write_fill_def)
  have f: "\<lparr>frame_id = frame_id f, flags = flags f, body = b'\<rparr> = f\<lparr>body := b'\<rparr>" for b'
    by (cases f) simp
  have "reads (\<lambda>buf offset0.
     chain (read_UInt32BE buf offset0) (\<lambda>len off1.
     chain (read_UInt32BE buf off1) (\<lambda>id off2.
     chain (read_UInt8 buf off2) (\<lambda>type off3.
     chain (read_UInt8 buf off3) (\<lambda>flgs off4.
     chain (read_fixed 6 buf off4) (\<lambda>reserved offset.
       case Frame_Types type of
         None \<Rightarrow> RdErr (InvalidFrameTypeError type) offset
       | Some BodyType \<Rightarrow>
           (let bodyLength = int len - 16 in
            case want bodyLength buf offset of
              Some err \<Rightarrow> RdErr err offset
            | None \<Rightarrow>
                (let endOff = int offset + bodyLength in
                 chain (BodyType_read alg BodyType buf offset) (\<lambda>b offset'.
                   if int offset' < endOff
                   then RdErr (ExtraFrameDataError len (nat (endOff - int offset'))) offset'
                   else RdOk \<lparr>frame_id = id, flags = flgs, body = b\<rparr> offset')))))))))
     (write_UInt32BE (16 + length w) @ write_UInt32BE (frame_id f)
       @ write_UInt8 (TypeCode (body_class (body f))) @ write_UInt8 (flags f) @ write_fill 0 6 @ w)
     \<lparr>frame_id = frame_id f, flags = flags f, body = b\<rparr>"
    apply (rule reads_chain)
     apply (rule reads_UInt32BE [OF n])
    apply (rule reads_chain)
     apply (rule reads_UInt32BE [OF i])
    apply (rule reads_chain)
     apply (rule reads_UInt8 [OF TypeCode_byte])
    apply (rule reads_chain)
     apply (rule reads_UInt8 [OF fl])
    apply (rule reads_chain)
     apply (rule reads_fixed [OF six])
    apply (rule reads_frame_body [OF rb refl])
    done
  then show ?thesis
    by (simp add: Frame_read_def [abs_def] Frame_write_legal [OF l] body_type_code_def w_def b_def f)
qed

lemma size_field:
  assumes l: "legal_frame f"
  shows "read_UInt32BE (fst (projr (Frame_write alg f))) 0
         = RdOk (16 + length (fst (projr (body_write alg (body f))))) 4"
proof -
  from l have lb: "legal_body (body f)" by (simp add: legal_frame_def)
  have "length (fst (projr (body_write alg (body f)))) \<le> 1000000" by (rule length_body_write [OF lb])
  then have n: "16 + length (fst (projr (body_write alg (body f)))) < 4294967296" by simp
  have "read_UInt32BE ([] @ write_UInt32BE (16 + length (fst (projr (body_write alg (body f))))) @
          (write_UInt32BE (frame_id f) @ write_UInt8 (body_type_code (body f)) @ write_UInt8 (flags f)
           @ write_fill 0 6 @ fst (projr (body_write alg (body f))))) (length ([] :: buffer))
        = RdOk (16 + length (fst (projr (body_write alg (body f)))))
            (length ([] :: buffer)
             + length (write_UInt32BE (16 + length (fst (projr (body_write alg (body f)))))))"
    by (rule readsD [OF reads_UInt32BE [OF n]])
  then show ?thesis
    by (simp add: Frame_write_legal [OF l] length_write_UInt)
qed

lemma body_write_current: "legal_body b \<Longrightarrow> (snd (projr (body_write alg b)) = b) = csum_current alg b"
proof (cases b)
  case (InitRequest ver0 hp pn)
  assume "legal_body b"
  with InitRequest show ?thesis by (cases hp; cases pn) (simp_all add: Init_write_def write_buf2_arg_def)
next
  case (InitResponse ver0 hp pn)
  assume "legal_body b"
  with InitResponse show ?thesis by (cases hp; cases pn) (simp_all add: Init_write_def write_buf2_arg_def)
next
  case (CallRequest ttl tracing service hs arg1 arg2 arg3 csum)
  then show ?thesis by (cases csum) (auto simp: Let_def Checksum_update_def)
next
  case (CallResponse code hs arg1 arg2 arg3 csum)
  then show ?thesis by (cases csum) (auto simp: Let_def Checksum_update_def)
qed simp_all

lemma Frame_write_current:
  assumes "legal_frame f"
  shows "(snd (projr (Frame_write alg f)) = f) = csum_current alg (body f)"
proof -
  from assms have lb: "legal_body (body f)" by (simp add: legal_frame_def)
  have "(f\<lparr>body := b'\<rparr> = f) = (b' = body f)" for b'
    by (cases f) auto
  then show ?thesis
    using body_write_current [OF lb, of alg] by (simp add: Frame_write_legal [OF assms])
qed

text \<open>
  C1. A frame whose fields lie in the legal value space of their wire forms, with any of the
  checksum types, is written, and is decoded from its encoded bytes: \<^verbatim>\<open>Frame.read\<close> on the bytes
  of \<^verbatim>\<open>toBuffer\<close> returns the frame and consumes all of them. The frame it returns is the frame
  as \<^verbatim>\<open>write\<close> leaves it: a call body's \<^verbatim>\<open>write\<close> recomputes the checksum value over the
  arguments, in place, so the frame after the write is the frame before it exactly when its
  checksum value was current. The size field of the header reads back as the length of the
  bytes, which is 16 plus the length of the encoded body. The names of an init body are
  strings: \<^verbatim>\<open>InitRequest.read\<close> makes a string of the bytes it reads, and gives back the string
  that was written.
\<close>

theorem frame_roundtrip:
  assumes "legal_frame f"
  shows "case Frame_write alg f of
           Inl err \<Rightarrow> False
         | Inr (bytes, f') \<Rightarrow>
             toBuffer alg f = Inr bytes
             \<and> Frame_read alg bytes 0 = RdOk f' (length bytes)
             \<and> (f' = f) = csum_current alg (body f)
             \<and> read_UInt32BE bytes 0 = RdOk (length bytes) 4
             \<and> (case body_write alg (body f) of
                   Inl err \<Rightarrow> False
                 | Inr (bodyBytes, b') \<Rightarrow> length bytes = 16 + length bodyBytes)"
proof -
  from assms have lb: "legal_body (body f)" by (simp add: legal_frame_def)
  obtain bytes f' where fw: "Frame_write alg f = Inr (bytes, f')"
    using Frame_write_legal [OF assms, of alg] by blast
  then have pr: "projr (Frame_write alg f) = (bytes, f')" by simp
  obtain w b' where bw: "body_write alg (body f) = Inr (w, b')"
    using body_write_legal [OF lb, of alg] by (cases "projr (body_write alg (body f))") simp
  have len: "length bytes = 16 + length w"
    using fw Frame_write_legal [OF assms, of alg] bw by (auto simp: length_write_UInt write_fill_def)
  have "Frame_read alg ([] @ fst (projr (Frame_write alg f)) @ []) (length ([] :: buffer))
        = RdOk (snd (projr (Frame_write alg f)))
            (length ([] :: buffer) + length (fst (projr (Frame_write alg f))))"
    by (rule readsD [OF reads_Frame [OF assms]])
  then have rd: "Frame_read alg bytes 0 = RdOk f' (length bytes)"
    by (simp add: pr)
  have cur: "(f' = f) = csum_current alg (body f)"
    using Frame_write_current [OF assms, of alg] by (simp add: pr)
  have sz: "read_UInt32BE bytes 0 = RdOk (length bytes) 4"
    using size_field [OF assms, of alg] by (simp add: pr bw len)
  show ?thesis
    by (simp add: fw bw toBuffer_def rd cur sz len)
qed

theorem frame_roundtrip_witness:
  "legal_frame example_frame
   \<and> (case toBuffer example_alg example_frame of
         Inl err \<Rightarrow> False
       | Inr bytes \<Rightarrow>
           length bytes = 76
           \<and> read_UInt32BE bytes 0 = RdOk 76 4
           \<and> Frame_read example_alg bytes 0
               = RdOk (example_frame\<lparr>body := CallRequest 1000 (replicate 24 (CHR 0x00)) ''svc''
                         [(''as'', ''raw'')] ''echo'' ''hi'' ''yo'' \<lparr>ctype = 1, cval = 8\<rparr>\<rparr>) 76)
   \<and> legal_frame example_init
   \<and> (case toBuffer example_alg example_init of
         Inl err \<Rightarrow> False
       | Inr bytes \<Rightarrow>
           length bytes = 66
           \<and> read_UInt32BE bytes 0 = RdOk 66 4
           \<and> Frame_read example_alg bytes 0 = RdOk example_init 66)"
proof -
  have l: "legal_frame example_frame"
    by (simp add: example_frame_def legal_frame_def legal_buf2_def legal_headers_def)
  obtain bytes f' where fw: "Frame_write example_alg example_frame = Inr (bytes, f')"
    using frame_roundtrip [OF l, of example_alg] by (auto split: sum.splits)
  have f': "f' = example_frame\<lparr>body := CallRequest 1000 (replicate 24 (CHR 0x00)) ''svc''
                         [(''as'', ''raw'')] ''echo'' ''hi'' ''yo'' \<lparr>ctype = 1, cval = 8\<rparr>\<rparr>"
    using fw by (simp add: example_frame_def example_alg_def Frame_write_def Let_def
          Checksum_update_def Checksum_compute_def)
  have n: "length bytes = 76"
    using fw by (auto simp: example_frame_def Frame_write_def Let_def length_write_UInt write_fixed_def
          write_buf2_def header_write_def write_buf1_def Checksum_write_def Checksum_update_def
          write_fill_def)
  have 1: "case toBuffer example_alg example_frame of
         Inl err \<Rightarrow> False
       | Inr bytes \<Rightarrow>
           length bytes = 76
           \<and> read_UInt32BE bytes 0 = RdOk 76 4
           \<and> Frame_read example_alg bytes 0
               = RdOk (example_frame\<lparr>body := CallRequest 1000 (replicate 24 (CHR 0x00)) ''svc''
                         [(''as'', ''raw'')] ''echo'' ''hi'' ''yo'' \<lparr>ctype = 1, cval = 8\<rparr>\<rparr>) 76"
    using frame_roundtrip [OF l, of example_alg] by (simp add: fw toBuffer_def n f')
  have li: "legal_frame example_init"
    by (simp add: example_init_def legal_frame_def byte_in_def)
  obtain ibytes g' where gw: "Frame_write example_alg example_init = Inr (ibytes, g')"
    using frame_roundtrip [OF li, of example_alg] by (auto split: sum.splits)
  have g': "g' = example_init"
    using frame_roundtrip [OF li, of example_alg] by (simp add: gw) (simp add: example_init_def)
  have m: "length ibytes = 66"
    using gw by (auto simp: example_init_def Frame_write_def Init_write_def write_buf2_arg_def Let_def length_write_UInt
          write_buf2_def write_fill_def)
  have 2: "case toBuffer example_alg example_init of
         Inl err \<Rightarrow> False
       | Inr bytes \<Rightarrow>
           length bytes = 66
           \<and> read_UInt32BE bytes 0 = RdOk 66 4
           \<and> Frame_read example_alg bytes 0 = RdOk example_init 66"
    using frame_roundtrip [OF li, of example_alg] by (simp add: gw toBuffer_def m g')
  from l 1 li 2 show ?thesis by (intro conjI)
qed

section \<open>The chunk reader: results\<close>


declare transform_loop.simps [simp del]

lemma transform_loop_total:
  "reader_inv r \<Longrightarrow>
   \<exists>r' log'. transform_loop FT r log = (r', log @ log', Callback) \<and> reader_inv r'
      \<and> avail (rbuffer r') < rexpecting r' \<and> frameLengthSize r' = frameLengthSize r"
proof (induction FT r log rule: transform_loop.induct)
  case (1 FT self log)
  show ?case
  proof (cases "avail (rbuffer self) \<ge> rexpecting self")
    case False
    then show ?thesis using "1.prems"
      by (subst transform_loop.simps) (auto intro: exI [of _ "[]"])
  next
    case en: True
    show ?thesis
    proof (cases "rstate self")
      case PendingLength
      with en "1.prems" obtain n where n: "readLength self = Inr n"
        by (auto simp: readLength_def ParseBuffer_readUInt_def reader_inv_def avail_def)
      show ?thesis
      proof (cases "n = 0")
        case True
        let ?r1 = "self\<lparr>rbuffer := snd (ParseBuffer_shift (frameLengthSize self) (rbuffer self)),
                            rexpecting := frameLengthSize self,
                            rstate := PendingLength\<rparr>"
        have inv1: "reader_inv ?r1" using "1.prems" by (simp add: reader_inv_def)
        from "1.IH"(1) [OF en PendingLength n True inv1]
        obtain r' log' where
          "transform_loop FT ?r1 (log @ [EmitErr ZeroLengthFrameError]) = (r', (log @ [EmitErr ZeroLengthFrameError]) @ log', Callback)"
          "reader_inv r'" "avail (rbuffer r') < rexpecting r'" "frameLengthSize r' = frameLengthSize ?r1"
          by blast
        then show ?thesis using en PendingLength n True
          by (subst transform_loop.simps) (auto intro: exI [of _ "EmitErr ZeroLengthFrameError # log'"])
      next
        case False
        let ?r1 = "self\<lparr>rexpecting := n, rstate := Seeking\<rparr>"
        have inv1: "reader_inv ?r1" using "1.prems" False by (simp add: reader_inv_def)
        from "1.IH"(2) [OF en PendingLength n False inv1]
        show ?thesis using en PendingLength n False
          by (subst transform_loop.simps) auto
      qed
    next
      case Seeking
      let ?chunk = "fst (ParseBuffer_shift (rexpecting self) (rbuffer self))"
      let ?rest = "snd (ParseBuffer_shift (rexpecting self) (rbuffer self))"
      have ne: "length ?chunk \<noteq> 0" using en Seeking "1.prems"
        by (auto simp: reader_inv_def ParseBuffer_shift_def avail_def)
      let ?r1 = "self\<lparr>rbuffer := ?rest, rexpecting := frameLengthSize self, rstate := PendingLength\<rparr>"
      have inv1: "reader_inv ?r1" using "1.prems" by (simp add: reader_inv_def)
      from "1.IH"(3) [OF en Seeking refl refl ne inv1]
      obtain r' log' where
          "transform_loop FT ?r1 (log @ [reader_handleFrame FT ?chunk]) = (r', (log @ [reader_handleFrame FT ?chunk]) @ log', Callback)"
          "reader_inv r'" "avail (rbuffer r') < rexpecting r'" "frameLengthSize r' = frameLengthSize ?r1"
          by blast
      then show ?thesis using en Seeking ne
        by (subst transform_loop.simps) (auto simp: Let_def intro: exI [of _ "reader_handleFrame FT ?chunk # log'"])
    qed
  qed
qed

lemma reader_update_order:
  "r\<lparr>rexpecting := e, rstate := s, rbuffer := b\<rparr> = r\<lparr>rbuffer := b, rexpecting := e, rstate := s\<rparr>"
  by (cases r) simp

lemma readLength_append:
  assumes "readLength r = Inr n"
  shows "readLength (r\<lparr>rbuffer := rbuffer r @ x\<rparr>) = Inr n"
proof -
  from assms have w: "frameLengthSize r \<le> length (rbuffer r)"
    and n: "n = be_value (take (frameLengthSize r) (rbuffer r))"
    and k: "frameLengthSize r = 1 \<or> frameLengthSize r = 2 \<or> frameLengthSize r = 4"
    by (auto simp: readLength_def ParseBuffer_readUInt_def split: if_splits)
  from w have "take (frameLengthSize r) (rbuffer r @ x) = take (frameLengthSize r) (rbuffer r)"
    by simp
  with w n k show ?thesis
    by (simp add: readLength_def ParseBuffer_readUInt_def)
qed

lemma transform_loop_append:
  "reader_inv r \<Longrightarrow>
   transform_loop FT (r\<lparr>rbuffer := rbuffer r @ x\<rparr>) log =
     (case transform_loop FT r log of
        (r', log', oc) \<Rightarrow> transform_loop FT (r'\<lparr>rbuffer := rbuffer r' @ x\<rparr>) log')"
proof (induction FT r log rule: transform_loop.induct)
  case (1 FT self log)
  let ?selfx = "self\<lparr>rbuffer := rbuffer self @ x\<rparr>"
  show ?case
  proof (cases "avail (rbuffer self) \<ge> rexpecting self")
    case False
    then have "transform_loop FT self log = (self, log, Callback)"
      by (subst transform_loop.simps) simp
    then show ?thesis by simp
  next
    case en: True
    then have en': "avail (rbuffer ?selfx) \<ge> rexpecting ?selfx"
      by (simp add: avail_def)
    show ?thesis
    proof (cases "rstate self")
      case PendingLength
      with en "1.prems" obtain n where n: "readLength self = Inr n"
        by (auto simp: readLength_def ParseBuffer_readUInt_def reader_inv_def avail_def)
      note n' = readLength_append [OF n, of x]
      have le: "frameLengthSize self \<le> length (rbuffer self)"
        using en PendingLength "1.prems" by (auto simp: reader_inv_def avail_def)
      show ?thesis
      proof (cases "n = 0")
        case True
        let ?r1 = "self\<lparr>rbuffer := snd (ParseBuffer_shift (frameLengthSize self) (rbuffer self)),
                            rexpecting := frameLengthSize self,
                            rstate := PendingLength\<rparr>"
        let ?log1 = "log @ [EmitErr ZeroLengthFrameError]"
        have inv1: "reader_inv ?r1" using "1.prems" by (simp add: reader_inv_def)
        have sh: "snd (ParseBuffer_shift (frameLengthSize self) (rbuffer self @ x))
                  = snd (ParseBuffer_shift (frameLengthSize self) (rbuffer self)) @ x"
          using le by (simp add: ParseBuffer_shift_def)
        have L: "transform_loop FT ?selfx log = transform_loop FT (?r1\<lparr>rbuffer := rbuffer ?r1 @ x\<rparr>) ?log1"
          using en' PendingLength n' True sh by (subst transform_loop.simps) (simp add: reader_update_order)
        have R: "transform_loop FT self log = transform_loop FT ?r1 ?log1"
          using en PendingLength n True by (subst transform_loop.simps) simp
        from "1.IH"(1) [OF en PendingLength n True inv1]
        show ?thesis by (simp only: L R)
      next
        case False
        let ?r1 = "self\<lparr>rexpecting := n, rstate := Seeking\<rparr>"
        have inv1: "reader_inv ?r1" using "1.prems" False by (simp add: reader_inv_def)
        have L: "transform_loop FT ?selfx log = transform_loop FT (?r1\<lparr>rbuffer := rbuffer ?r1 @ x\<rparr>) log"
          using en' PendingLength n' False by (subst transform_loop.simps) (simp add: reader_update_order)
        have R: "transform_loop FT self log = transform_loop FT ?r1 log"
          using en PendingLength n False by (subst transform_loop.simps) simp
        from "1.IH"(2) [OF en PendingLength n False inv1]
        show ?thesis by (simp only: L R)
      qed
    next
      case Seeking
      let ?chunk = "fst (ParseBuffer_shift (rexpecting self) (rbuffer self))"
      let ?rest = "snd (ParseBuffer_shift (rexpecting self) (rbuffer self))"
      have ne: "length ?chunk \<noteq> 0" using en Seeking "1.prems"
        by (auto simp: reader_inv_def ParseBuffer_shift_def avail_def)
      have sh: "ParseBuffer_shift (rexpecting self) (rbuffer self @ x) = (?chunk, ?rest @ x)"
        using en by (simp add: ParseBuffer_shift_def avail_def)
      let ?r1 = "self\<lparr>rbuffer := ?rest, rexpecting := frameLengthSize self, rstate := PendingLength\<rparr>"
      let ?log1 = "log @ [reader_handleFrame FT ?chunk]"
      have inv1: "reader_inv ?r1" using "1.prems" by (simp add: reader_inv_def)
      have L: "transform_loop FT ?selfx log = transform_loop FT (?r1\<lparr>rbuffer := rbuffer ?r1 @ x\<rparr>) ?log1"
        using en' Seeking ne sh by (subst transform_loop.simps) (simp add: Let_def reader_update_order)
      have R: "transform_loop FT self log = transform_loop FT ?r1 ?log1"
        using en Seeking ne by (subst transform_loop.simps) (simp add: Let_def)
      from "1.IH"(3) [OF en Seeking refl refl ne inv1]
      show ?thesis by (simp only: L R)
    qed
  qed
qed

lemma transform_chunks_concat:
  "reader_inv r \<Longrightarrow> avail (rbuffer r) < rexpecting r \<Longrightarrow>
   transform_chunks FT r log chunks = transform_loop FT (r\<lparr>rbuffer := rbuffer r @ concat chunks\<rparr>) log"
proof (induction chunks arbitrary: r log)
  case Nil
  then show ?case by (subst transform_loop.simps) simp
next
  case (Cons c cs)
  let ?rc = "r\<lparr>rbuffer := rbuffer r @ c\<rparr>"
  have invc: "reader_inv ?rc" using Cons.prems by (simp add: reader_inv_def)
  from transform_loop_total [OF invc, of FT log]
  obtain r1 log1 where run: "transform_loop FT ?rc log = (r1, log @ log1, Callback)"
    and inv1: "reader_inv r1" and stuck1: "avail (rbuffer r1) < rexpecting r1"
    by blast
  have "transform_loop FT (r\<lparr>rbuffer := rbuffer r @ concat (c # cs)\<rparr>) log
        = transform_loop FT (?rc\<lparr>rbuffer := rbuffer ?rc @ concat cs\<rparr>) log"
    by simp
  also have "\<dots> = transform_loop FT (r1\<lparr>rbuffer := rbuffer r1 @ concat cs\<rparr>) (log @ log1)"
    by (subst transform_loop_append [OF invc]) (simp add: run)
  also have "\<dots> = transform_chunks FT r1 (log @ log1) cs"
    by (rule Cons.IH [OF inv1 stuck1, symmetric])
  finally show ?case by (simp add: transform_def run)
qed

lemma transform_loop_frame:
  assumes "wf_frame_bytes f"
  shows "transform_loop FT (reader4 (f @ rest)) log
         = transform_loop FT (reader4 rest) (log @ [reader_handleFrame FT f])"
proof -
  from assms have len: "4 \<le> length f" and v: "be_value (take 4 f) = length f"
    by (simp_all add: wf_frame_bytes_def)
  have rl: "readLength (reader4 (f @ rest)) = Inr (length f)"
    using len v by (simp add: readLength_def reader4_def ParseBuffer_readUInt_def)
  have "transform_loop FT (reader4 (f @ rest)) log
        = transform_loop FT ((reader4 (f @ rest))\<lparr>rexpecting := length f, rstate := Seeking\<rparr>) log"
    using len rl by (subst transform_loop.simps) (auto simp: reader4_def avail_def)
  also have "\<dots> = transform_loop FT (reader4 rest) (log @ [reader_handleFrame FT f])"
    using len by (subst transform_loop.simps) (auto simp: reader4_def avail_def ParseBuffer_shift_def Let_def)
  finally show ?thesis .
qed

lemma transform_loop_frames:
  "list_all wf_frame_bytes fs \<Longrightarrow>
   transform_loop FT (reader4 (concat fs)) log = (reader4 [], log @ map (reader_handleFrame FT) fs, Callback)"
proof (induction fs arbitrary: log)
  case Nil
  show ?case by (subst transform_loop.simps) (simp add: reader4_def avail_def)
next
  case (Cons f fs)
  then show ?case by (simp add: transform_loop_frame)
qed

lemma transform_loop_zero:
  "transform_loop FT (reader4 (CHR 0x00 # CHR 0x00 # CHR 0x00 # CHR 0x00 # rest)) log
   = transform_loop FT (reader4 rest) (log @ [EmitErr ZeroLengthFrameError])"
  by (subst transform_loop.simps)
     (simp add: reader4_def avail_def readLength_def ParseBuffer_readUInt_def ParseBuffer_shift_def)

section \<open>The chunk parser: results\<close>



lemma push_append: "push p c = p\<lparr>buffer := buffer p @ c\<rparr>"
  by (simp add: push_def)

lemma parser_update_order:
  "p\<lparr>expecting := e, state := s, buffer := b\<rparr> = p\<lparr>buffer := b, expecting := e, state := s\<rparr>"
  by (cases p) simp

lemma shift_append:
  "expecting p \<le> length (buffer p) \<Longrightarrow>
   shift (p\<lparr>buffer := buffer p @ x\<rparr>) = (fst (shift p), (snd (shift p))\<lparr>buffer := buffer (snd (shift p)) @ x\<rparr>)"
  by (cases "x = []") (auto simp: shift_def)

lemma execute_loop_stuck:
  "\<not> expecting p \<le> length (buffer p) \<Longrightarrow> execute_loop FT p log = Some (p, log, None)"
  by (subst execute_loop.simps) simp

lemma execute_loop_pending:
  "expecting p \<le> length (buffer p) \<Longrightarrow> state p = PendingLength \<Longrightarrow> 4 \<le> length (buffer p) \<Longrightarrow>
   execute_loop FT p log = execute_loop FT (p\<lparr>expecting := be_value (take 4 (buffer p)), state := Seeking\<rparr>) log"
  by (subst execute_loop.simps) (simp add: Buffer_readUInt32BE_def)

lemma execute_loop_seeking:
  "expecting p \<le> length (buffer p) \<Longrightarrow> state p = Seeking \<Longrightarrow>
   execute_loop FT p log =
     execute_loop FT ((snd (shift p))\<lparr>expecting := 4, state := PendingLength\<rparr>)
       (log @ [handleFrame FT (fst (shift p))])"
  by (subst execute_loop.simps) (simp add: case_prod_beta)

lemma execute_loop_append:
  assumes "execute_loop FT p log = Some (p', log', None)"
  shows "execute_loop FT (p\<lparr>buffer := buffer p @ x\<rparr>) log
         = execute_loop FT (p'\<lparr>buffer := buffer p' @ x\<rparr>) log'"
proof -
  have "\<forall>p' log'. y = (p', log', None) \<longrightarrow>
          execute_loop FT (p\<lparr>buffer := buffer p @ x\<rparr>) log
          = execute_loop FT (p'\<lparr>buffer := buffer p' @ x\<rparr>) log'"
    if run: "execute_loop FT p log = Some y" for y
  proof (rule execute_loop.raw_induct [rotated, where P = "\<lambda>FT p log y. \<forall>p' log'. y = (p', log', None) \<longrightarrow>
          execute_loop FT (p\<lparr>buffer := buffer p @ x\<rparr>) log
          = execute_loop FT (p'\<lparr>buffer := buffer p' @ x\<rparr>) log'", OF run], goal_cases)
    case (1 f FT self log y)
    show ?case
    proof (cases "expecting self \<le> length (buffer self)")
      case False
      with 1(2) show ?thesis by auto
    next
      case en: True
      let ?sx = "self\<lparr>buffer := buffer self @ x\<rparr>"
      from en have en': "expecting ?sx \<le> length (buffer ?sx)" by simp
      show ?thesis
      proof (cases "state self")
        case PendingLength
        show ?thesis
        proof (cases "4 \<le> length (buffer self)")
          case False
          with 1(2) en PendingLength show ?thesis
            by (auto simp: Buffer_readUInt32BE_def)
        next
          case True
          let ?n = "be_value (take 4 (buffer self))"
          from 1(2) en PendingLength True
          have "f FT (self\<lparr>expecting := ?n, state := Seeking\<rparr>) log = Some y"
            by (simp add: Buffer_readUInt32BE_def)
          from 1(1) [OF this]
          have IH: "\<forall>p' log'. y = (p', log', None) \<longrightarrow>
             execute_loop FT (self\<lparr>buffer := buffer self @ x, expecting := ?n, state := Seeking\<rparr>) log
             = execute_loop FT (p'\<lparr>buffer := buffer p' @ x\<rparr>) log'"
            by (simp add: parser_update_order)
          have "execute_loop FT ?sx log
                = execute_loop FT (self\<lparr>buffer := buffer self @ x, expecting := ?n, state := Seeking\<rparr>) log"
            using execute_loop_pending [OF en', of FT log] PendingLength True by simp
          with IH show ?thesis by simp
        qed
      next
        case Seeking
        let ?c = "fst (shift self)" and ?s1 = "snd (shift self)"
        from 1(2) en Seeking
        have "f FT (?s1\<lparr>expecting := 4, state := PendingLength\<rparr>) (log @ [handleFrame FT ?c]) = Some y"
          by (simp add: case_prod_beta)
        from 1(1) [OF this]
        have IH: "\<forall>p' log'. y = (p', log', None) \<longrightarrow>
             execute_loop FT (?s1\<lparr>buffer := buffer ?s1 @ x, expecting := 4, state := PendingLength\<rparr>)
               (log @ [handleFrame FT ?c])
             = execute_loop FT (p'\<lparr>buffer := buffer p' @ x\<rparr>) log'"
          by (simp add: parser_update_order)
        have "execute_loop FT ?sx log
              = execute_loop FT (?s1\<lparr>buffer := buffer ?s1 @ x, expecting := 4, state := PendingLength\<rparr>)
                  (log @ [handleFrame FT ?c])"
          using execute_loop_seeking [OF en', of FT log] Seeking shift_append [OF en, of x] by simp
        with IH show ?thesis by simp
      qed
    qed
  qed
  with assms show ?thesis by blast
qed

lemma execute_loop_prefix:
  assumes run: "execute_loop FT (p\<lparr>buffer := buffer p @ x\<rparr>) log = Some y" and inv: "parser_inv p"
  shows "\<exists>p' log'. execute_loop FT p log = Some (p', log', None) \<and> parser_inv p'
           \<and> \<not> expecting p' \<le> length (buffer p')"
proof -
  have "\<forall>p. q = p\<lparr>buffer := buffer p @ x\<rparr> \<longrightarrow> parser_inv p \<longrightarrow>
          (\<exists>p' log'. execute_loop FT p log = Some (p', log', None) \<and> parser_inv p'
              \<and> \<not> expecting p' \<le> length (buffer p'))"
    if run: "execute_loop FT q log = Some y" for q
  proof (rule execute_loop.raw_induct [rotated, where P = "\<lambda>FT q log y.
          \<forall>p. q = p\<lparr>buffer := buffer p @ x\<rparr> \<longrightarrow> parser_inv p \<longrightarrow>
          (\<exists>p' log'. execute_loop FT p log = Some (p', log', None) \<and> parser_inv p'
              \<and> \<not> expecting p' \<le> length (buffer p'))", OF run], goal_cases)
    case (1 f FT q log y)
    show ?case
    proof (intro allI impI)
      fix p assume q: "q = p\<lparr>buffer := buffer p @ x\<rparr>" and inv: "parser_inv p"
      show "\<exists>p' log'. execute_loop FT p log = Some (p', log', None) \<and> parser_inv p'
              \<and> \<not> expecting p' \<le> length (buffer p')"
      proof (cases "expecting p \<le> length (buffer p)")
        case False
        with inv show ?thesis by (auto simp: execute_loop_stuck)
      next
        case en: True
        then have en': "expecting q \<le> length (buffer q)" by (simp add: q)
        show ?thesis
        proof (cases "state p")
          case PendingLength
          with inv en have four: "4 \<le> length (buffer p)" by (simp add: parser_inv_def)
          let ?n = "be_value (take 4 (buffer p))"
          let ?p1 = "p\<lparr>expecting := ?n, state := Seeking\<rparr>"
          from 1(2) en' PendingLength four
          have "f FT (?p1\<lparr>buffer := buffer ?p1 @ x\<rparr>) log = Some y"
            by (simp add: q Buffer_readUInt32BE_def parser_update_order)
          from 1(1) [OF this, rule_format, of ?p1]
          obtain p' log' where "execute_loop FT ?p1 log = Some (p', log', None)" "parser_inv p'"
              "\<not> expecting p' \<le> length (buffer p')"
            by (auto simp: parser_inv_def)
          then show ?thesis
            using execute_loop_pending [OF en PendingLength four, of FT log] by auto
        next
          case Seeking
          let ?c = "fst (shift p)" and ?s1 = "snd (shift p)"
          let ?p1 = "?s1\<lparr>expecting := 4, state := PendingLength\<rparr>"
          from 1(2) en' Seeking shift_append [OF en, of x]
          have "f FT (?p1\<lparr>buffer := buffer ?p1 @ x\<rparr>) (log @ [handleFrame FT ?c]) = Some y"
            by (simp add: q parser_update_order)
          from 1(1) [OF this, rule_format, of ?p1]
          obtain p' log' where "execute_loop FT ?p1 (log @ [handleFrame FT ?c]) = Some (p', log', None)"
              "parser_inv p'" "\<not> expecting p' \<le> length (buffer p')"
            by (auto simp: parser_inv_def)
          then show ?thesis
            using execute_loop_seeking [OF en Seeking, of FT log] by auto
        qed
      qed
    qed
  qed
  with assms show ?thesis by blast
qed

lemma execute_chunks_concat:
  "parser_inv p \<Longrightarrow> \<not> expecting p \<le> length (buffer p) \<Longrightarrow>
   execute_loop FT (p\<lparr>buffer := buffer p @ concat chunks\<rparr>) log = Some (p', log', None) \<Longrightarrow>
   execute_chunks FT p log chunks = Some (p', log', None)"
proof (induction chunks arbitrary: p log)
  case Nil
  then show ?case by (simp add: execute_loop_stuck)
next
  case (Cons c cs)
  let ?pc = "p\<lparr>buffer := buffer p @ c\<rparr>"
  have invc: "parser_inv ?pc" using Cons.prems(1) by (simp add: parser_inv_def)
  have whole: "execute_loop FT (?pc\<lparr>buffer := buffer ?pc @ concat cs\<rparr>) log = Some (p', log', None)"
    using Cons.prems(3) by simp
  from execute_loop_prefix [OF whole invc]
  obtain p1 log1 where run1: "execute_loop FT ?pc log = Some (p1, log1, None)"
    and inv1: "parser_inv p1" and stuck1: "\<not> expecting p1 \<le> length (buffer p1)"
    by blast
  from execute_loop_append [OF run1, of "concat cs"] whole
  have "execute_loop FT (p1\<lparr>buffer := buffer p1 @ concat cs\<rparr>) log1 = Some (p', log', None)"
    by simp
  from Cons.IH [OF inv1 stuck1 this]
  show ?case by (simp add: execute_def push_append run1)
qed

lemma execute_loop_frame:
  assumes "wf_frame_bytes f"
  shows "execute_loop FT (parser (f @ rest)) log
         = execute_loop FT (parser rest) (log @ [handleFrame FT f])"
proof -
  from assms have len: "4 \<le> length f" and v: "be_value (take 4 f) = length f"
    by (simp_all add: wf_frame_bytes_def)
  have "execute_loop FT (parser (f @ rest)) log
        = execute_loop FT \<lparr>buffer = f @ rest, expecting = length f, state = Seeking\<rparr> log"
    using len v by (subst execute_loop.simps) (simp add: parser_def Buffer_readUInt32BE_def)
  also have "\<dots> = execute_loop FT (parser rest) (log @ [handleFrame FT f])"
    by (subst execute_loop.simps) (auto simp: parser_def shift_def)
  finally show ?thesis .
qed

lemma execute_loop_frames:
  "list_all wf_frame_bytes fs \<Longrightarrow>
   execute_loop FT (parser (concat fs)) log = Some (parser [], log @ map (handleFrame FT) fs, None)"
proof (induction fs arbitrary: log)
  case Nil
  show ?case by (subst execute_loop.simps) (simp add: parser_def)
next
  case (Cons f fs)
  then show ?case by (simp add: execute_loop_frame)
qed

lemma execute_loop_zero_length:
  assumes "zero_length_loop p"
  shows "execute_loop FT p log = None"
proof (cases "execute_loop FT p log")
  case None
  then show ?thesis .
next
  case (Some y)
  have "\<not> zero_length_loop p"
  proof (rule execute_loop.raw_induct [rotated, where P = "\<lambda>FT p log y. \<not> zero_length_loop p", OF Some],
      goal_cases)
    case (1 f FT self log y)
    note step = this
    show ?case
    proof
      assume z: "zero_length_loop self"
      then have four: "4 \<le> length (buffer self)" and v: "be_value (take 4 (buffer self)) = 0"
        by (simp_all add: zero_length_loop_def)
      from z consider (pending) "state self = PendingLength" "expecting self = 4"
        | (seeking) "state self = Seeking" "expecting self = 0"
        by (auto simp: zero_length_loop_def)
      then show False
      proof cases
        case pending
        with step(2) four v
        have "f FT (self\<lparr>expecting := 0, state := Seeking\<rparr>) log = Some y"
          by (simp add: Buffer_readUInt32BE_def)
        from step(1) [OF this] four v show False
          by (simp add: zero_length_loop_def)
      next
        case seeking
        with four have sh: "shift self = ([], self)"
          by (cases self) (auto simp: shift_def)
        with step(2) seeking four
        have "f FT (self\<lparr>expecting := 4, state := PendingLength\<rparr>) (log @ [handleFrame FT []]) = Some y"
          by simp
        from step(1) [OF this] four v show False
          by (simp add: zero_length_loop_def)
      qed
    qed
  qed
  with assms show ?thesis by simp
qed

section \<open>Framing: partition invariance and the zero-length frame\<close>

lemma ChunkReader_new_4: "ChunkReader_new (Some 4) = Inr (reader4 [])"
  by (simp add: ChunkReader_new_def reader4_def)

lemma ChunkParser_new_parser: "ChunkParser_new = parser []"
  by (simp add: ChunkParser_new_def parser_def)

text \<open>
  Any partition of any byte stream, fed to a chunk reader that waits between chunks, gives
  what the reader gives on the whole stream at once, well-formed or not.
\<close>

lemma transform_chunks_any_partition:
  assumes "reader_inv r" and "avail (rbuffer r) < rexpecting r" and "concat chunks = concat chunks'"
  shows "transform_chunks FT r log chunks = transform_chunks FT r log chunks'"
  using assms by (simp add: transform_chunks_concat)

text \<open>
  C2. Let the stream be the concatenation of the well-formed frames \<open>fs\<close>, and \<open>chunks\<close> any
  partition of it (any list of chunks, empty ones included, whose concatenation is the
  stream). Fed to a fresh chunk parser, and to a fresh chunk reader of width 4, the chunks
  make each of them emit exactly the decoding of each frame of \<open>fs\<close>, in order, and leave it
  in its initial state; the parser's loop returns on every chunk. The emitted sequence does
  not mention the partition, so it is the same for all of them.
\<close>

theorem framing_partition_invariance:
  assumes "list_all wf_frame_bytes fs" and "concat chunks = concat fs"
  shows "execute_chunks FrameType_read ChunkParser_new [] chunks
           = Some (ChunkParser_new, map (handleFrame FrameType_read) fs, None)
         \<and> transform_chunks fromBufferTuple (reader4 []) [] chunks
           = (reader4 [], map (reader_handleFrame fromBufferTuple) fs, Callback)"
proof
  have "execute_loop FrameType_read ((parser [])\<lparr>buffer := buffer (parser []) @ concat chunks\<rparr>) []
        = Some (parser [], [] @ map (handleFrame FrameType_read) fs, None)"
    using execute_loop_frames [OF assms(1), of FrameType_read "[]"] assms(2)
    by (simp add: parser_def)
  then have "execute_chunks FrameType_read (parser []) [] chunks
        = Some (parser [], [] @ map (handleFrame FrameType_read) fs, None)"
    by (intro execute_chunks_concat) (simp_all add: parser_def parser_inv_def)
  then show "execute_chunks FrameType_read ChunkParser_new [] chunks
           = Some (ChunkParser_new, map (handleFrame FrameType_read) fs, None)"
    by (simp add: ChunkParser_new_parser)
next
  have "transform_chunks fromBufferTuple (reader4 []) [] chunks
        = transform_loop fromBufferTuple ((reader4 [])\<lparr>rbuffer := rbuffer (reader4 []) @ concat chunks\<rparr>) []"
    by (intro transform_chunks_concat) (simp_all add: reader4_def reader_inv_def avail_def)
  also have "\<dots> = transform_loop fromBufferTuple (reader4 (concat fs)) []"
    using assms(2) by (simp add: reader4_def)
  also have "\<dots> = (reader4 [], [] @ map (reader_handleFrame fromBufferTuple) fs, Callback)"
    by (rule transform_loop_frames [OF assms(1)])
  finally show "transform_chunks fromBufferTuple (reader4 []) [] chunks
           = (reader4 [], map (reader_handleFrame fromBufferTuple) fs, Callback)"
    by simp
qed

theorem framing_partition_invariance_witness:
  "execute_chunks (Frame_read (\<lambda>t a1 a2 a3. 0)) ChunkParser_new []
       [[CHR 0x00, CHR 0x00], [], [CHR 0x00, CHR 0x05, CHR 0x01, CHR 0x00], [CHR 0x00, CHR 0x00, CHR 0x04]]
     = Some (ChunkParser_new,
             map (handleFrame (Frame_read (\<lambda>t a1 a2 a3. 0)))
               [[CHR 0x00, CHR 0x00, CHR 0x00, CHR 0x05, CHR 0x01], [CHR 0x00, CHR 0x00, CHR 0x00, CHR 0x04]],
             None)
   \<and> transform_chunks Inr (reader4 []) []
       [[CHR 0x00, CHR 0x00], [], [CHR 0x00, CHR 0x05, CHR 0x01, CHR 0x00], [CHR 0x00, CHR 0x00, CHR 0x04]]
     = (reader4 [],
        map (reader_handleFrame Inr)
          [[CHR 0x00, CHR 0x00, CHR 0x00, CHR 0x05, CHR 0x01], [CHR 0x00, CHR 0x00, CHR 0x00, CHR 0x04]],
        Callback)"
  using framing_partition_invariance
    [of "[[CHR 0x00, CHR 0x00, CHR 0x00, CHR 0x05, CHR 0x01], [CHR 0x00, CHR 0x00, CHR 0x00, CHR 0x04]]"
        "[[CHR 0x00, CHR 0x00], [], [CHR 0x00, CHR 0x05, CHR 0x01, CHR 0x00], [CHR 0x00, CHR 0x00, CHR 0x04]]"
        "Frame_read (\<lambda>t a1 a2 a3. 0)" Inr]
  by (simp add: wf_frame_bytes_def)

text \<open>
  The chunk reader of width 4 on a stream that begins with \<open>00 00 00 00\<close>: it emits one
  zero-length-frame error, drops the four bytes, and goes on from its initial state with
  the bytes that follow, as it would on those bytes alone.
\<close>

lemma ChunkReader_zero_length_resumes:
  "transform fromBufferTuple (reader4 []) log (CHR 0x00 # CHR 0x00 # CHR 0x00 # CHR 0x00 # rest)
   = transform fromBufferTuple (reader4 []) (log @ [EmitErr ZeroLengthFrameError]) rest"
  using transform_loop_zero [of fromBufferTuple rest log]
  by (simp add: transform_def reader4_def)

text \<open>
  C3. The claim holds of the chunk reader (\<open>ChunkReader_zero_length_resumes\<close>). The chunk
  parser of v2/parser.js, the one the connection feeds its socket data to, has no such
  guard: on a stream that begins with \<open>00 00 00 00\<close> it reads the length 0, seeks a frame of
  0 bytes, takes an empty slice without consuming anything, reports the failed decode of
  the empty slice, and is back where it started. \<^verbatim>\<open>execute\<close> never returns.
\<close>

theorem ChunkParser_zero_length_never_returns:
  "execute FrameType_read ChunkParser_new log (CHR 0x00 # CHR 0x00 # CHR 0x00 # CHR 0x00 # rest) = None"
  unfolding execute_def
  by (rule execute_loop_zero_length) (simp add: zero_length_loop_def push_def ChunkParser_new_def)

section \<open>The endpoint registries and the error envelope: results\<close>

text \<open>
  C8. The claim asks that registering a name that is already present be rejected and the
  old handler kept. \<^verbatim>\<open>TChannel.prototype.register\<close> is a plain assignment: a second
  registration under the same name replaces the first, for every handler value, and leaves
  the channel exactly as if only the second had been made. The router's
  \<^verbatim>\<open>TRouterService.prototype.register\<close> does reject it (\<open>TRouterService_register_rejects\<close>).
\<close>

theorem register_overwrites:
  "endpoints (register (register ch op h1) op h2) op = Some h2
   \<and> register (register ch op h1) op h2 = register ch op h2"
  by (simp add: register_def)

lemma TRouterService_register_rejects:
  "service_endpoints svc name = Some old \<Longrightarrow>
   TRouterService_register svc name h = Inl (EndpointAlreadyDefinedError (service_name svc) name)"
  by (simp add: TRouterService_register_def)

lemma serializeError_string: "serializeError P (JStr s) = s"
  by (simp add: serializeError_def)

text \<open>
  C9, as amended. For every string \<open>s\<close> that is not JSON text, serialization passes \<open>s\<close>
  through unchanged and deserialization of that payload yields \<open>s\<close> again.
\<close>

theorem error_string_roundtrip:
  "safeParse P s = None \<Longrightarrow> deserializeError P (serializeError P (JStr s)) = Inr (JStr s)"
  by (simp add: serializeError_def deserializeError_def)

theorem error_string_roundtrip_witness:
  "safeParse example_platform ''boom'' = None
   \<and> deserializeError example_platform (serializeError example_platform (JStr ''boom'')) = Inr (JStr ''boom'')"
  using error_string_roundtrip [of example_platform "''boom''"]
  by (simp add: example_platform_def)

text \<open>
  C9 as stated fails for a string that is itself JSON text: the string \<^verbatim>\<open>{}\<close> is serialized
  to itself, parses, and comes back as the parsed value, an empty object.
\<close>

theorem error_string_roundtrip_counterexample:
  "deserializeError example_platform (serializeError example_platform (JStr ''{}'')) = Inr (JObj [])
   \<and> deserializeError example_platform (serializeError example_platform (JStr ''{}'')) \<noteq> Inr (JStr ''{}'')"
  by (simp add: serializeError_def deserializeError_def example_platform_def)

text \<open>
  Whatever the payload, \<^verbatim>\<open>deserializeError\<close> returns the payload, the parsed value, or throws:
  a parsed value whose only key is \<^verbatim>\<open>$jsError\<close> has no \<^verbatim>\<open>name\<close> of its own, so the branch that
  rebuilds an error object is never taken.
\<close>

lemma deserializeError_results:
  "deserializeError P str = Inl TypeError
   \<or> deserializeError P str = Inr (JStr str)
   \<or> (\<exists>data. safeParse P str = Some data \<and> deserializeError P str = Inr data)"
proof (cases "safeParse P str")
  case None
  then show ?thesis by (simp add: deserializeError_def)
next
  case (Some data)
  show ?thesis
  proof (cases data)
    case (JObj kvs)
    have "length (map fst kvs) = 1 \<and> map fst kvs ! 0 = ''$jsError'' \<Longrightarrow> map_of kvs ''name'' = None"
      by (cases kvs) auto
    with Some JObj show ?thesis
      by (auto simp: deserializeError_def Let_def)
  qed (use Some in \<open>auto simp: deserializeError_def Let_def\<close>)
qed

section \<open>Reset, sweep and frame dispatch: results\<close>

lemma ops_delete_fresh: "k \<notin> fst ` set kvs \<Longrightarrow> ops_delete k kvs = kvs"
  by (induction kvs) (auto simp: ops_delete_def)

lemma ops_delete_head: "ops_delete k ((k, v) # kvs) = ops_delete k kvs"
  by (simp add: ops_delete_def)

lemma resetOutOps_all:
  "distinct (map fst ops) \<Longrightarrow> outOps c = ops \<Longrightarrow>
   resetOutOps err (map fst ops) c
   = (c\<lparr>outOps := []\<rparr>, map (\<lambda>(k, op). CallSink (callback op) err JNull JNull) ops, None)"
proof (induction ops arbitrary: c)
  case Nil
  then show ?case by simp
next
  case (Cons kv ops)
  obtain k v where kv: "kv = (k, v)" by (cases kv)
  from Cons.prems kv have fresh: "k \<notin> fst ` set ops" and d: "distinct (map fst ops)" by auto
  let ?c1 = "c\<lparr>outOps := ops_delete k (outOps c)\<rparr>"
  have o1: "outOps ?c1 = ops"
    using Cons.prems(2) kv fresh by (simp add: ops_delete_head ops_delete_fresh)
  from Cons.IH [OF d o1]
  show ?case using Cons.prems(2) kv by simp
qed

lemma inOps_deleted:
  "foldl (\<lambda>c opId. c\<lparr>inOps := ops_delete opId (inOps c)\<rparr>) c ks
   = c\<lparr>inOps := filter (\<lambda>(k, v). k \<notin> set ks) (inOps c)\<rparr>"
proof (induction ks arbitrary: c)
  case Nil
  then show ?case by simp
next
  case (Cons k ks)
  have "filter (\<lambda>(k', v). k' \<notin> set ks) (ops_delete k (inOps c))
        = filter (\<lambda>(k', v). k' \<notin> set (k # ks)) (inOps c)"
    by (auto simp: ops_delete_def intro: filter_cong)
  with Cons.IH [of "c\<lparr>inOps := ops_delete k (inOps c)\<rparr>"] show ?case by simp
qed

lemma inOps_deleted_all:
  "foldl (\<lambda>c opId. c\<lparr>inOps := ops_delete opId (inOps c)\<rparr>) c (map fst (inOps c)) = c\<lparr>inOps := []\<rparr>"
proof -
  have "filter (\<lambda>(k, v). k \<notin> set (map fst (inOps c))) (inOps c) = []"
    by (force simp: filter_empty_conv)
  then show ?thesis by (simp add: inOps_deleted)
qed

lemma indexOf_None: "indexOf xs x = None \<longleftrightarrow> x \<notin> set xs"
  by (induction xs) auto

lemma count_list_splice1:
  "indexOf xs x = Some i \<Longrightarrow> count_list (splice1 xs i) x = count_list xs x - 1"
proof (induction xs arbitrary: i)
  case Nil
  then show ?case by simp
next
  case (Cons y ys)
  show ?case
  proof (cases "y = x")
    case True
    with Cons.prems show ?thesis by (simp add: splice1_def)
  next
    case False
    with Cons.prems obtain j where j: "indexOf ys x = Some j" and i: "i = Suc j" by auto
    from Cons.IH [OF j] False i show ?thesis by (simp add: splice1_def)
  qed
qed

lemma count_removePeer:
  "count_list (peer_list (removePeer ch hp r) hp') r
   = (if hp = hp' then count_list (peer_list ch hp') r - 1 else count_list (peer_list ch hp') r)"
proof (cases "peers ch hp")
  case None
  then show ?thesis by (auto simp: removePeer_def peer_list_def)
next
  case (Some l)
  show ?thesis
  proof (cases "indexOf l r")
    case None
    with Some have "count_list l r = 0" by (simp add: indexOf_None)
    with Some None show ?thesis by (auto simp: removePeer_def peer_list_def)
  next
    case (Some i)
    with \<open>peers ch hp = Some l\<close> count_list_splice1 [OF Some] show ?thesis
      by (auto simp: removePeer_def peer_list_def)
  qed
qed

lemma count_removePeers:
  "count_list (peer_list (foldl (\<lambda>ch' hp. removePeer ch' hp r) ch hps) hp') r
   = count_list (peer_list ch hp') r - count_list hps hp'"
proof (induction hps arbitrary: ch)
  case Nil
  then show ?case by simp
next
  case (Cons hp hps)
  show ?case by (simp add: Cons.IH count_removePeer)
qed

lemma removePeer_fields:
  "hostPort (removePeer ch hp r) = hostPort ch \<and> endpoints (removePeer ch hp r) = endpoints ch"
  by (simp add: removePeer_def split: option.splits)

lemma resetAll_result:
  assumes "\<not> closing c" and "distinct (map fst (outOps c))"
  shows "resetAll ch c err =
     (foldl (\<lambda>ch' hp. removePeer ch' hp (conn_ref c)) ch (resetListeners c),
      c\<lparr>closing := True, timer := None, resetListeners := [], inOps := [], outOps := [],
         inPending := 0, outPending := 0, socketCloseListeners := 0\<rparr>,
      (case timer c of Some t \<Rightarrow> [ClearTimeout t] | None \<Rightarrow> [])
      @ [ConnEmit ''reset'']
      @ map (\<lambda>(k, op). CallSink (callback op) err JNull JNull) (outOps c)
      @ ConnEmit ''socketClose''
        # replicate (socketCloseListeners c) (ChannelEmitSocketClose (conn_ref c) err),
      None)"
proof -
  define c3 where "c3 = c\<lparr>closing := True, timer := None, resetListeners := []\<rparr>"
  have in0: "foldl (\<lambda>c opId. c\<lparr>inOps := ops_delete opId (inOps c)\<rparr>) c3 (map fst (inOps c)) = c3\<lparr>inOps := []\<rparr>"
    using inOps_deleted_all [of c3] by (simp add: c3_def)
  have out0: "resetOutOps err (map fst (outOps c)) (c3\<lparr>inOps := []\<rparr>)
      = (c3\<lparr>inOps := [], outOps := []\<rparr>, map (\<lambda>(k, op). CallSink (callback op) err JNull JNull) (outOps c), None)"
    using resetOutOps_all [OF assms(2), of "c3\<lparr>inOps := []\<rparr>" err] by (simp add: c3_def)
  show ?thesis
  proof (cases "timer c")
    case None
    have c3': "c\<lparr>closing := True, resetListeners := []\<rparr> = c3"
      using None by (cases c) (simp add: c3_def)
    show ?thesis using assms(1) None
      by (simp add: resetAll_def clearTimeoutTimer_def emit_reset_def emit_socketClose_def Let_def
          c3' in0 out0) (simp add: c3_def)
  next
    case (Some t)
    show ?thesis using assms(1) Some in0 out0
      by (simp add: resetAll_def clearTimeoutTimer_def emit_reset_def emit_socketClose_def Let_def
          c3_def [symmetric]) (simp add: c3_def)
  qed
qed


lemma tracked_fresh:
  "resetListeners c = [] \<Longrightarrow> (\<And>hp. conn_ref c \<notin> set (peer_list ch hp)) \<Longrightarrow> tracked ch c"
  by (simp add: tracked_def)

lemma tracked_addPeer:
  assumes "tracked ch c" and "addPeer ch hp c = Inr (ch', c')"
  shows "tracked ch' c'"
proof -
  from assms(2) have c': "c' = c\<lparr>resetListeners := resetListeners c @ [hp],
                                 socketCloseListeners := socketCloseListeners c + 1\<rparr>"
    and ch': "peers ch' = (peers ch)(hp \<mapsto> (if direction c = Out then conn_ref c # peer_list ch hp
                                              else peer_list ch hp @ [conn_ref c]))"
    by (auto simp: addPeer_def setPeer_def Let_def peer_list_def split: if_splits sum.splits)
  show ?thesis
    unfolding tracked_def
  proof
    fix h
    from assms(1) have "count_list (peer_list ch h) (conn_ref c) \<le> count_list (resetListeners c) h"
      by (simp add: tracked_def)
    then show "count_list (peer_list ch' h) (conn_ref c') \<le> count_list (resetListeners c') h"
      by (simp add: c' ch' peer_list_def)
  qed
qed

text \<open>
  C6. \<^verbatim>\<open>resetAll(err)\<close> on a connection that is already closing changes nothing and calls
  nothing. Otherwise (the table of outbound operations has one entry per key, and the
  connection is tracked by its channel) it sets \<open>closing\<close>, cancels the timer, empties
  \<open>inOps\<close> and \<open>outOps\<close>, and its effects are exactly: the timer cancelled, the \<^verbatim>\<open>reset\<close> event,
  the callback of each outbound operation called once with \<open>err\<close>, in key order, and the
  \<^verbatim>\<open>socketClose\<close> event passed on to the channel; no inbound handler is run or answered.
  Afterwards the connection is in no peer sequence of the channel, so in particular not
  under its remote name.
\<close>

theorem resetAll_terminal_cleanup:
  assumes "distinct (map fst (outOps c))" and "tracked ch c"
  shows "if closing c then resetAll ch c err = (ch, c, [], None)
         else (case resetAll ch c err of
                 (ch', c', es, x) \<Rightarrow>
                   x = None \<and> closing c' \<and> timer c' = None \<and> inOps c' = [] \<and> outOps c' = []
                   \<and> es = (case timer c of Some t \<Rightarrow> [ClearTimeout t] | None \<Rightarrow> [])
                          @ [ConnEmit ''reset'']
                          @ map (\<lambda>(k, op). CallSink (callback op) err JNull JNull) (outOps c)
                          @ ConnEmit ''socketClose''
                            # replicate (socketCloseListeners c) (ChannelEmitSocketClose (conn_ref c) err)
                   \<and> (\<forall>hp. conn_ref c \<notin> set (peer_list ch' hp)))"
proof (cases "closing c")
  case True
  then show ?thesis by (simp add: resetAll_def)
next
  case False
  have gone: "conn_ref c \<notin> set (peer_list (foldl (\<lambda>ch' hp. removePeer ch' hp (conn_ref c)) ch (resetListeners c)) hp)"
    for hp
  proof -
    from assms(2) have "count_list (peer_list ch hp) (conn_ref c) \<le> count_list (resetListeners c) hp"
      by (simp add: tracked_def)
    then have "count_list (peer_list (foldl (\<lambda>ch' hp. removePeer ch' hp (conn_ref c)) ch (resetListeners c)) hp)
                 (conn_ref c) = 0"
      by (simp add: count_removePeers)
    then show ?thesis by (simp add: count_list_0_iff)
  qed
  show ?thesis
    using False gone by (simp add: resetAll_result [OF False assms(1)])
qed

theorem resetAll_terminal_cleanup_witness:
  "distinct (map fst [(3::nat, example_op 3 (Some 1000) 30), (5, example_op 5 (Some 1000) 50)])
   \<and> tracked (example_channel [''127.0.0.1:4040'' \<mapsto> [1]])
       (example_connection (Some ''127.0.0.1:4040'')
          [(3, example_op 3 (Some 1000) 30), (5, example_op 5 (Some 1000) 50)] [''127.0.0.1:4040''])
   \<and> (case resetAll (example_channel [''127.0.0.1:4040'' \<mapsto> [1]])
              (example_connection (Some ''127.0.0.1:4040'')
                 [(3, example_op 3 (Some 1000) 30), (5, example_op 5 (Some 1000) 50)] [''127.0.0.1:4040''])
              (new_Error ''socket closed'') of
         (ch', c', es, x) \<Rightarrow>
           x = None \<and> closing c' \<and> timer c' = None \<and> inOps c' = [] \<and> outOps c' = []
           \<and> es = [ClearTimeout 1, ConnEmit ''reset'',
                   CallSink 30 (new_Error ''socket closed'') JNull JNull,
                   CallSink 50 (new_Error ''socket closed'') JNull JNull,
                   ConnEmit ''socketClose'',
                   ChannelEmitSocketClose 1 (new_Error ''socket closed'')]
           \<and> (\<forall>hp. 1 \<notin> set (peer_list ch' hp)))"
proof -
  let ?ch = "example_channel [''127.0.0.1:4040'' \<mapsto> [1]]"
  let ?c = "example_connection (Some ''127.0.0.1:4040'')
          [(3, example_op 3 (Some 1000) 30), (5, example_op 5 (Some 1000) 50)] [''127.0.0.1:4040'']"
  have d: "distinct (map fst (outOps ?c))" by (simp add: example_connection_def)
  have t: "tracked ?ch ?c"
    by (simp add: tracked_def peer_list_def example_channel_def example_connection_def)
  from resetAll_terminal_cleanup [OF d t, of "new_Error ''socket closed''"] d t
  show ?thesis
    by (simp add: example_connection_def example_op_def split: prod.splits)
qed

lemma conn_update_order1:
  "c\<lparr>outPending := p, lastTimeoutTime := t, outOps := os\<rparr> = c\<lparr>outOps := os, outPending := p, lastTimeoutTime := t\<rparr>"
  by (cases c) simp

lemma map_of_kept:
  "distinct (map fst (kept @ (k, v) # ops)) \<Longrightarrow> map_of (kept @ (k, v) # ops) k = Some v"
  by (induction kept) auto

lemma ops_delete_kept:
  "distinct (map fst (kept @ (k, v) # ops)) \<Longrightarrow> ops_delete k (kept @ (k, v) # ops) = kept @ ops"
proof -
  assume d: "distinct (map fst (kept @ (k, v) # ops))"
  then have "k \<notin> fst ` set kept" "k \<notin> fst ` set ops" by auto
  then show ?thesis
    by (simp add: ops_delete_def) (metis ops_delete_def ops_delete_fresh)
qed

lemma checkOutOps_loop_result:
  "distinct (map fst (kept @ ops)) \<Longrightarrow> list_all (\<lambda>(k, op). \<not> timedOut op) ops \<Longrightarrow>
   outOps c = kept @ ops \<Longrightarrow>
   checkOutOps_loop ch now (map fst ops) c
   = (c\<lparr>outOps := kept @ filter (\<lambda>(k, op). \<not> expired ch now op) ops,
         outPending := outPending c - int (length (filter (\<lambda>(k, op). expired ch now op) ops)),
         lastTimeoutTime := (if list_ex (\<lambda>(k, op). expired ch now op) ops then now else lastTimeoutTime c)\<rparr>,
      map (\<lambda>(k, op). CallSink (callback op) (new_Error ''timed out'') JNull JNull)
        (filter (\<lambda>(k, op). expired ch now op) ops),
      None)"
proof (induction ops arbitrary: c kept)
  case Nil
  then show ?case by (cases c) simp
next
  case (Cons kv ops)
  obtain k v where kv: "kv = (k, v)" by (cases kv)
  from Cons.prems kv have d: "distinct (map fst (kept @ (k, v) # ops))"
    and nt: "\<not> timedOut v" and nts: "list_all (\<lambda>(k, op). \<not> timedOut op) ops"
    and tbl: "outOps c = kept @ (k, v) # ops"
    by simp_all
  have look: "map_of (outOps c) k = Some v" using tbl map_of_kept [OF d] by simp
  have del: "ops_delete k (outOps c) = kept @ ops" using tbl ops_delete_kept [OF d] by simp
  show ?case
  proof (cases "expired ch now v")
    case True
    let ?c2 = "c\<lparr>outOps := kept @ ops, outPending := outPending c - 1, lastTimeoutTime := now\<rparr>"
    have d': "distinct (map fst (kept @ ops))" using d by auto
    have IH: "checkOutOps_loop ch now (map fst ops) ?c2
       = (?c2\<lparr>outOps := kept @ filter (\<lambda>(k, op). \<not> expired ch now op) ops,
         outPending := outPending ?c2 - int (length (filter (\<lambda>(k, op). expired ch now op) ops)),
         lastTimeoutTime := (if list_ex (\<lambda>(k, op). expired ch now op) ops then now else lastTimeoutTime ?c2)\<rparr>,
          map (\<lambda>(k, op). CallSink (callback op) (new_Error ''timed out'') JNull JNull)
            (filter (\<lambda>(k, op). expired ch now op) ops),
          None)"
      by (rule Cons.IH [OF d' nts]) simp
    from True have ex: "now - start v > (case timeout v of None \<Rightarrow> reqTimeoutDefault ch
                          | Some t \<Rightarrow> if t \<noteq> 0 then t else reqTimeoutDefault ch)"
      by (simp add: expired_def effective_timeout_def)
    have step: "checkOutOps_loop ch now (map fst (kv # ops)) c
        = (case checkOutOps_loop ch now (map fst ops) ?c2 of
             (s3, es', x) \<Rightarrow> (s3, CallSink (callback v) (new_Error ''timed out'') JNull JNull # es', x))"
      using nt look del ex by (simp add: kv onReqTimeout_def Let_def)
    have fin: "?c2\<lparr>outOps := kept @ filter (\<lambda>(k, op). \<not> expired ch now op) ops,
         outPending := outPending ?c2 - int (length (filter (\<lambda>(k, op). expired ch now op) ops)),
         lastTimeoutTime := (if list_ex (\<lambda>(k, op). expired ch now op) ops then now else lastTimeoutTime ?c2)\<rparr>
       = c\<lparr>outOps := kept @ filter (\<lambda>(k, op). \<not> expired ch now op) (kv # ops),
         outPending := outPending c - int (length (filter (\<lambda>(k, op). expired ch now op) (kv # ops))),
         lastTimeoutTime := (if list_ex (\<lambda>(k, op). expired ch now op) (kv # ops) then now else lastTimeoutTime c)\<rparr>"
      using True by (cases c) (simp add: kv)
    show ?thesis
      unfolding step IH fin using True by (simp add: kv)
  next
    case False
    have d': "distinct (map fst ((kept @ [(k, v)]) @ ops))" using d by simp
    have tbl': "outOps c = (kept @ [(k, v)]) @ ops" using tbl by simp
    from False have ex: "\<not> now - start v > (case timeout v of None \<Rightarrow> reqTimeoutDefault ch
                          | Some t \<Rightarrow> if t \<noteq> 0 then t else reqTimeoutDefault ch)"
      by (simp add: expired_def effective_timeout_def)
    show ?thesis
      using False nt look ex Cons.IH [OF d' nts tbl']
      by (simp add: kv Let_def)
  qed
qed

lemma checkInOps_loop_fields:
  "outOps (checkInOps_loop ch now ks c) = outOps c
   \<and> lastTimeoutTime (checkInOps_loop ch now ks c) = lastTimeoutTime c
   \<and> closing (checkInOps_loop ch now ks c) = closing c
   \<and> outPending (checkInOps_loop ch now ks c) = outPending c"
  by (induction ks arbitrary: c) (auto split: option.splits)

lemma checkInOps_loop_result:
  "distinct (map fst (kept @ ops)) \<Longrightarrow> inOps c = kept @ ops \<Longrightarrow>
   checkInOps_loop ch now (map fst ops) c
   = c\<lparr>inOps := kept @ filter (\<lambda>(k, op). \<not> in_overdue ch now op) ops,
        inPending := inPending c - int (length (filter (\<lambda>(k, op). in_overdue ch now op) ops))\<rparr>"
proof (induction ops arbitrary: c kept)
  case Nil
  then show ?case by (cases c) simp
next
  case (Cons kv ops)
  obtain k v where kv: "kv = (k, v)" by (cases kv)
  from Cons.prems kv have d: "distinct (map fst (kept @ (k, v) # ops))"
    and tbl: "inOps c = kept @ (k, v) # ops"
    by simp_all
  have look: "map_of (inOps c) k = Some v" using tbl map_of_kept [OF d] by simp
  have del: "ops_delete k (inOps c) = kept @ ops" using tbl ops_delete_kept [OF d] by simp
  show ?case
  proof (cases "in_overdue ch now v")
    case True
    let ?c2 = "c\<lparr>inOps := kept @ ops, inPending := inPending c - 1\<rparr>"
    have d': "distinct (map fst (kept @ ops))" using d by auto
    have IH: "checkInOps_loop ch now (map fst ops) ?c2
       = ?c2\<lparr>inOps := kept @ filter (\<lambda>(k, op). \<not> in_overdue ch now op) ops,
              inPending := inPending ?c2 - int (length (filter (\<lambda>(k, op). in_overdue ch now op) ops))\<rparr>"
      by (rule Cons.IH [OF d']) simp
    from True have ex: "now - in_start v > serverTimeoutDefault ch"
      by (simp add: in_overdue_def)
    have step: "checkInOps_loop ch now (map fst (kv # ops)) c = checkInOps_loop ch now (map fst ops) ?c2"
      using look del ex by (simp add: kv)
    show ?thesis
      unfolding step IH using True by (cases c) (simp add: kv)
  next
    case False
    have d': "distinct (map fst ((kept @ [(k, v)]) @ ops))" using d by simp
    have tbl': "inOps c = (kept @ [(k, v)]) @ ops" using tbl by simp
    from False have ex: "\<not> now - in_start v > serverTimeoutDefault ch"
      by (simp add: in_overdue_def)
    show ?thesis
      using False look ex Cons.IH [OF d' tbl']
      by (simp add: kv)
  qed
qed

lemma checkOutOps_loop_inOps:
  "inOps (fst (checkOutOps_loop ch now ks c)) = inOps c"
  by (induction ks arbitrary: c)
    (auto simp: Let_def onReqTimeout_def split_beta split: option.splits)

lemma overdue_expired: "timeout_set op \<Longrightarrow> expired ch now op = overdue now op"
  by (auto simp: timeout_set_def expired_def effective_timeout_def overdue_def split: option.splits)

text \<open>
  The tables of operations are kept in key order with one entry per key: setting and
  deleting an entry keep them so. The operations that \<^verbatim>\<open>send\<close> records for the requests that
  \<^verbatim>\<open>buildRequest\<close> makes have a timeout of their own and are not flagged as timed out.
\<close>

lemma ops_set_keys: "fst ` set (ops_set k v kvs) = insert k (fst ` set kvs)"
proof (induction kvs)
  case Nil
  show ?case by simp
next
  case (Cons kv kvs)
  obtain k' v' where kv: "kv = (k', v')" by (cases kv)
  show ?case
    unfolding kv using Cons.IH by (cases "k = k'"; cases "k < k'") (simp_all add: insert_commute)
qed

lemma ops_set_sorted:
  "sorted (map fst kvs) \<Longrightarrow> distinct (map fst kvs) \<Longrightarrow>
   sorted (map fst (ops_set k v kvs)) \<and> distinct (map fst (ops_set k v kvs))"
proof (induction kvs)
  case Nil
  show ?case by simp
next
  case (Cons kv kvs)
  obtain k' v' where kv: "kv = (k', v')" by (cases kv)
  from Cons.prems kv have s: "sorted (map fst kvs)" and d: "distinct (map fst kvs)"
    and le: "\<forall>x \<in> fst ` set kvs. k' \<le> x" and nin: "k' \<notin> fst ` set kvs"
    by auto
  note ih = Cons.IH [OF s d]
  show ?case
  proof (cases "k = k'")
    case True
    with Cons.prems kv show ?thesis by simp
  next
    case False
    show ?thesis
    proof (cases "k < k'")
      case True
      with Cons.prems kv le nin show ?thesis by (auto simp: less_le_trans)
    next
      case ge: False
      with False have "k' < k" by simp
      with False ge ih le nin show ?thesis
        by (auto simp: kv ops_set_keys)
    qed
  qed
qed

lemma ops_delete_sorted:
  "sorted (map fst kvs) \<Longrightarrow> distinct (map fst kvs) \<Longrightarrow>
   sorted (map fst (ops_delete k kvs)) \<and> distinct (map fst (ops_delete k kvs))"
  by (induction kvs) (auto simp: ops_delete_def)

lemma send_keys:
  assumes "sorted (map fst (outOps c))" and "distinct (map fst (outOps c))"
  shows "sorted (map fst (outOps (fst (send alg c reqBody cb now))))
         \<and> distinct (map fst (outOps (fst (send alg c reqBody cb now))))"
  using ops_set_sorted [OF assms] by (simp add: send_def Let_def split: sum.splits)

lemma ops_set_list_all:
  "Q (k, v) \<Longrightarrow> list_all Q kvs \<Longrightarrow> list_all Q (ops_set k v kvs)"
  by (induction kvs) auto

lemma send_timeout_set:
  assumes "list_all (\<lambda>(k, op). \<not> timedOut op \<and> timeout_set op) (outOps c)"
  shows "list_all (\<lambda>(k, op). \<not> timedOut op \<and> timeout_set op)
           (outOps (fst (send alg c (buildRequest tmo tr sv hs a1 a2 a3) cb now)))"
proof -
  have t: "body_ttl (buildRequest tmo tr sv hs a1 a2 a3) = Some t \<Longrightarrow> t \<noteq> 0" for t
    by (auto simp: buildRequest_def Let_def split: option.splits if_splits)
  obtain t where bt: "body_ttl (buildRequest tmo tr sv hs a1 a2 a3) = Some t"
    by (simp add: buildRequest_def Let_def)
  with t have nz: "t \<noteq> 0" by simp
  show ?thesis
    using assms bt nz
    by (auto simp: send_def Let_def timeout_set_def intro!: ops_set_list_all split: sum.splits)
qed

text \<open>
  C7, as amended. On a tick of the sweeper on a connection that is not closing: if
  \<open>lastTimeoutTime\<close> is not 0 the socket is destroyed and nothing else happens; otherwise
  every outbound operation with \<open>now - start\<close> greater than its timeout is removed from
  \<open>outOps\<close>, its callback is called with the error \<^verbatim>\<open>timed out\<close>, and \<open>lastTimeoutTime\<close> is set to
  \<open>now\<close>; every inbound operation with \<open>now - start\<close> greater than the channel's
  \<open>serverTimeoutDefault\<close> is removed from \<open>inOps\<close>, and nothing is called for it; the other
  outbound and inbound operations stay as they are, and the timer is set again. Each table
  has one entry per key, no outbound operation is flagged as timed out (the flag is only set
  on an operation that has left the table), and every outbound operation has a timeout of
  its own, as the ones that \<^verbatim>\<open>send\<close> records have (\<open>send_timeout_set\<close>).
\<close>

theorem sweep_tick:
  assumes "\<not> closing c" and "distinct (map fst (outOps c))" and "distinct (map fst (inOps c))"
    and "list_all (\<lambda>(k, op). \<not> timedOut op \<and> timeout_set op) (outOps c)"
  shows "if lastTimeoutTime c \<noteq> 0 then onTimeoutCheck ch c now draw newTimer = (c, [SocketDestroy], None)
         else (case onTimeoutCheck ch c now draw newTimer of
                 (c', es, x) \<Rightarrow>
                   x = None \<and> \<not> closing c'
                   \<and> outOps c' = filter (\<lambda>(k, op). \<not> overdue now op) (outOps c)
                   \<and> inOps c' = filter (\<lambda>(k, op). \<not> in_overdue ch now op) (inOps c)
                   \<and> es = map (\<lambda>(k, op). CallSink (callback op) (new_Error ''timed out'') JNull JNull)
                            (filter (\<lambda>(k, op). overdue now op) (outOps c))
                          @ [SetTimeout (getTimeoutDelay ch draw)]
                   \<and> lastTimeoutTime c'
                       = (if list_ex (\<lambda>(k, op). overdue now op) (outOps c) then now else 0))"
proof (cases "lastTimeoutTime c \<noteq> 0")
  case True
  with assms(1) show ?thesis by (simp add: onTimeoutCheck_def)
next
  case False
  from assms(4) have nt: "list_all (\<lambda>(k, op). \<not> timedOut op) (outOps c)"
    and ts: "\<And>k op. (k, op) \<in> set (outOps c) \<Longrightarrow> timeout_set op"
    by (auto simp: list_all_iff)
  have e1: "filter (\<lambda>(k, op). \<not> expired ch now op) (outOps c)
            = filter (\<lambda>(k, op). \<not> overdue now op) (outOps c)"
    by (rule filter_cong) (auto simp: overdue_expired dest: ts)
  have e2: "filter (\<lambda>(k, op). expired ch now op) (outOps c)
            = filter (\<lambda>(k, op). overdue now op) (outOps c)"
    by (rule filter_cong) (auto simp: overdue_expired dest: ts)
  have e3: "list_ex (\<lambda>(k, op). expired ch now op) (outOps c)
            = list_ex (\<lambda>(k, op). overdue now op) (outOps c)"
    unfolding list_ex_iff
    by (rule bex_cong) (auto simp: overdue_expired dest: ts)
  define c1 where "c1 = c\<lparr>outOps := filter (\<lambda>(k, op). \<not> overdue now op) (outOps c),
         outPending := outPending c - int (length (filter (\<lambda>(k, op). overdue now op) (outOps c))),
         lastTimeoutTime := (if list_ex (\<lambda>(k, op). overdue now op) (outOps c) then now else lastTimeoutTime c)\<rparr>"
  have "checkOutOps_loop ch now (map fst (outOps c)) c
   = (c\<lparr>outOps := [] @ filter (\<lambda>(k, op). \<not> expired ch now op) (outOps c),
         outPending := outPending c - int (length (filter (\<lambda>(k, op). expired ch now op) (outOps c))),
         lastTimeoutTime := (if list_ex (\<lambda>(k, op). expired ch now op) (outOps c) then now else lastTimeoutTime c)\<rparr>,
      map (\<lambda>(k, op). CallSink (callback op) (new_Error ''timed out'') JNull JNull)
        (filter (\<lambda>(k, op). expired ch now op) (outOps c)),
      None)"
    by (rule checkOutOps_loop_result) (use assms(2) nt in simp_all)
  then have run: "checkOutOps_loop ch now (map fst (outOps c)) c
   = (c1, map (\<lambda>(k, op). CallSink (callback op) (new_Error ''timed out'') JNull JNull)
        (filter (\<lambda>(k, op). overdue now op) (outOps c)), None)"
    by (simp add: e1 e2 e3 c1_def)
  have i1: "inOps c1 = inOps c" by (simp add: c1_def)
  have "checkInOps_loop ch now (map fst (inOps c1)) c1
        = c1\<lparr>inOps := [] @ filter (\<lambda>(k, op). \<not> in_overdue ch now op) (inOps c1),
             inPending := inPending c1 - int (length (filter (\<lambda>(k, op). in_overdue ch now op) (inOps c1)))\<rparr>"
    by (rule checkInOps_loop_result) (use assms(3) i1 in simp_all)
  then have inrun: "checkInOps_loop ch now (map fst (inOps c)) c1
        = c1\<lparr>inOps := filter (\<lambda>(k, op). \<not> in_overdue ch now op) (inOps c),
             inPending := inPending c1 - int (length (filter (\<lambda>(k, op). in_overdue ch now op) (inOps c)))\<rparr>"
    by (simp add: i1)
  show ?thesis
    using False assms(1)
    by (simp add: onTimeoutCheck_def checkOutOpsForTimeout_def run checkInOpsForTimeout_def i1 inrun
        startTimeoutTimer_def Let_def) (simp add: c1_def)
qed

theorem sweep_tick_witness:
  "(case onTimeoutCheck (example_channel Map.empty)
           ((example_connection (Some ''127.0.0.1:4040'')
               [(3, example_op 3 (Some 50) 30), (5, example_op 5 (Some 1000) 50)] [])
              \<lparr>inOps := [(4, example_in_op 4)]\<rparr>)
           100 50 2 of
      (c', es, x) \<Rightarrow>
        x = None \<and> \<not> closing c'
        \<and> outOps c' = [(5, example_op 5 (Some 1000) 50)]
        \<and> inOps c' = [(4, example_in_op 4)]
        \<and> es = [CallSink 30 (new_Error ''timed out'') JNull JNull, SetTimeout 1000]
        \<and> lastTimeoutTime c' = 100)"
proof -
  let ?c = "(example_connection (Some ''127.0.0.1:4040'')
              [(3, example_op 3 (Some 50) 30), (5, example_op 5 (Some 1000) 50)] [])
              \<lparr>inOps := [(4, example_in_op 4)]\<rparr>"
  have a: "\<not> closing ?c" "distinct (map fst (outOps ?c))" "distinct (map fst (inOps ?c))"
    "list_all (\<lambda>(k, op). \<not> timedOut op \<and> timeout_set op) (outOps ?c)"
    by (simp_all add: example_connection_def example_op_def timeout_set_def)
  from sweep_tick [OF a, of "example_channel Map.empty" 100 50 2]
  show ?thesis
    by (simp add: example_connection_def example_op_def example_channel_def overdue_def
        in_overdue_def example_in_op_def getTimeoutDelay_def split: prod.splits)
qed

text \<open>
  C7 as stated fails for the operations that are not outbound: at \<open>now = 6000\<close> no outbound
  operation has run for longer than its timeout, and the tick removes the inbound operation 4,
  which has run for longer than the \<open>serverTimeoutDefault\<close> of 5000.
\<close>

theorem sweep_inbound_counterexample:
  "\<not> overdue 6000 (example_op 5 (Some 10000) 50)
   \<and> inOps ((example_connection (Some ''127.0.0.1:4040'') [(5, example_op 5 (Some 10000) 50)] [])
              \<lparr>inOps := [(4, example_in_op 4)], inPending := 1\<rparr>) = [(4, example_in_op 4)]
   \<and> onTimeoutCheck (example_channel Map.empty)
        ((example_connection (Some ''127.0.0.1:4040'') [(5, example_op 5 (Some 10000) 50)] [])
           \<lparr>inOps := [(4, example_in_op 4)], inPending := 1\<rparr>) 6000 50 2
     = ((example_connection (Some ''127.0.0.1:4040'') [(5, example_op 5 (Some 10000) 50)] [])
          \<lparr>inOps := [], inPending := 0, timer := Some 2\<rparr>,
        [SetTimeout 1000], None)"
  by (simp add: onTimeoutCheck_def checkOutOpsForTimeout_def checkInOpsForTimeout_def
      startTimeoutTimer_def getTimeoutDelay_def example_connection_def example_op_def
      example_in_op_def example_channel_def overdue_def ops_delete_def Let_def)



lemma handleCallRequest_missing:
  "remoteName c = Some rn \<Longrightarrow> endpoints ch a1 = None \<Longrightarrow>
   handleCallRequest ch c \<lparr>frame_id = i, flags = fl, body = CallRequest ttl tr sv hs a1 a2 a3 cs\<rparr> now
   = (ch, c, [ChannelEmit ''endpoint.missing'' [JObj [(''name'', JStr a1)]]], None)"
  by (simp add: handleCallRequest_def)

text \<open>
  C4. The claim asks that a call request for a name without a registered endpoint be
  answered with a \<^verbatim>\<open>no such operation\<close> error. \<^verbatim>\<open>handleCallRequest\<close> builds the handler that
  would do so and then returns before it creates the operation or schedules the handler:
  on an initialized connection, a request for \<^verbatim>\<open>missing\<close> emits \<^verbatim>\<open>endpoint.missing\<close> on the
  channel and nothing else. No operation is recorded, no handler is scheduled, nothing is
  written to the socket. A registered name is served (\<open>handleCallRequest_registered\<close>).
\<close>

theorem handleCallRequest_missing_endpoint_no_response:
  "handleCallRequest (example_channel Map.empty) (example_connection (Some ''127.0.0.1:4040'') [] [])
     \<lparr>frame_id = 2, flags = 0,
      body = CallRequest 1000 (replicate 24 (CHR 0x00)) [] [] ''missing'' [] [] \<lparr>ctype = 2, cval = 0\<rparr>\<rparr> 0
   = (example_channel Map.empty, example_connection (Some ''127.0.0.1:4040'') [] [],
      [ChannelEmit ''endpoint.missing'' [JObj [(''name'', JStr ''missing'')]]], None)"
  by (simp add: handleCallRequest_def example_channel_def example_connection_def)

lemma handleCallRequest_registered:
  "remoteName c = Some rn \<Longrightarrow> endpoints ch a1 = Some (Function f) \<Longrightarrow>
   handleCallRequest ch c \<lparr>frame_id = i, flags = fl, body = CallRequest ttl tr sv hs a1 a2 a3 cs\<rparr> now
   = (ch,
      c\<lparr>inPending := inPending c + 1,
        inOps := ops_set i \<lparr>handler = UserHandler f,
                            reqFrame = \<lparr>frame_id = i, flags = fl, body = CallRequest ttl tr sv hs a1 a2 a3 cs\<rparr>,
                            in_timedOut = False, in_timeout = Some (int ttl), in_start = now,
                            checksumType = ctype cs, responseSent = False\<rparr> (inOps c)\<rparr>,
      [ChannelEmit ''endpoint'' [JObj [(''name'', JStr a1)]],
       NextTick (UserHandler f) (JStr a2) (JStr a3) (JStr rn)],
      None)"
  by (simp add: handleCallRequest_def)




section \<open>Frame identifiers: results\<close>

lemma nextFrameId_fresh: "nextFrameId 0 = 1"
  by (simp add: nextFrameId_def)

lemma nextFrameId_below_modulus: "nextFrameId lastId < 4294967295"
  by (simp add: nextFrameId_def)

text \<open>
  C5. The claim asks for the recurrence \<open>next = (last + 1) mod 2^32\<close>, under which the
  identifier after \<open>2^32 - 2\<close> is \<open>2^32 - 1\<close>. The code reduces modulo \<open>0xffffffff = 2^32 - 1\<close>:
  on a counter at \<open>4294967294\<close> it issues \<open>0\<close>, so it differs from the claimed recurrence
  there, and the identifier \<open>2^32 - 1\<close> is never issued at all.
\<close>

theorem nextFrameId_wraps_one_early:
  "nextFrameId 4294967294 = 0
   \<and> nextFrameId 4294967294 \<noteq> (4294967294 + 1) mod 2 ^ 32
   \<and> nextFrameId lastId \<noteq> 2 ^ 32 - 1"
proof -
  have "nextFrameId lastId < 4294967295" by (simp add: nextFrameId_def)
  then show ?thesis by (simp add: nextFrameId_def)
qed

end
